theory Spec2Isabelle
  imports Main "HOL-Library.Char_ord" "HOL-Library.List_Lexorder"
begin

section \<open>Values\<close>

text \<open>
  The documents, update objects and queries of the model layer are JavaScript values.
  The embedding covers the values the document model accepts: \<open>undefined\<close>, \<open>null\<close>,
  numbers, strings, booleans, dates, arrays and plain objects. Numbers are integers (no
  \<open>NaN\<close>, no infinities, no fractions); a date carries its time value, \<open>None\<close> for an
  invalid date (time value \<open>NaN\<close>); a plain object is the list of its own enumerable
  properties in enumeration order. Functions, regular expressions and ObjectID instances
  are not values of the model, and properties inherited from a prototype are not
  modelled: a property read that finds no own property yields \<open>undefined\<close>.
\<close>

datatype jsval =
    Undefined
  | Null
  | Num int
  | Str string
  | Bool bool
  | Date "int option"
  | Arr "jsval list"
  | Obj "(string \<times> jsval) list"

datatype error =
    FieldDollar       \<comment> \<open>Field names cannot begin with the $ character\<close>
  | FieldDot          \<comment> \<open>Field names cannot contain a .\<close>
  | TypeError         \<comment> \<open>a TypeError of the runtime (property read on null, call of a non-function)\<close>
  | SyntaxError       \<comment> \<open>a SyntaxError of the runtime (RegExp constructor)\<close>
  | UserError         \<comment> \<open>an exception raised by a compiled $where predicate\<close>
  | ImmutableId       \<comment> \<open>You cannot change a document's _id\<close>
  | MixedUpdate       \<comment> \<open>You cannot mix modifiers and normal fields\<close>
  | UnknownModifier
  | ModifierArg       \<comment> \<open>Modifier's argument must be an object\<close>
  | NotAnArray        \<comment> \<open>an array modifier on a non-array value, or a non-array operand\<close>
  | BadEach           \<comment> \<open>a malformed $each / $slice operand\<close>
  | NotANumber        \<comment> \<open>$inc or $pop with a non-number\<close>
  | AssertionError    \<comment> \<open>a failed chai assertion of the positional operator\<close>
  | NonArrayOperand   \<comment> \<open>$in, $nin, $or, $and called without an array\<close>
  | BadRegex          \<comment> \<open>$regex operator called with non regular expression\<close>
  | BadSize           \<comment> \<open>$size operator called without an integer\<close>
  | BadWhere          \<comment> \<open>$where used without a function, or not returning a boolean\<close>
  | UnknownOperator   \<comment> \<open>unknown logical operator or comparison function\<close>
  | MixedQuery        \<comment> \<open>You cannot mix operators and normal fields\<close>
  | IoError           \<comment> \<open>an error of the file system\<close>
  | RangeError        \<comment> \<open>the call stack is exhausted\<close>
  | Dangling          \<comment> \<open>a reference to no cell of the heap (no behaviour of the program)\<close>
  | Unmodelled        \<comment> \<open>a named property given to an array (outside the embedding)\<close>

text \<open>Sequencing of a step that may throw with its continuation.\<close>

definition and_then :: "error + 'a \<Rightarrow> ('a \<Rightarrow> error + 'b) \<Rightarrow> error + 'b" where
  "and_then m f = (case m of Inl e \<Rightarrow> Inl e | Inr x \<Rightarrow> f x)"

text \<open>A loop whose body returns nothing: the first exception ends it.\<close>

fun first_error :: "(error + unit) list \<Rightarrow> error + unit" where
  "first_error [] = Inr ()"
| "first_error (Inl e # rs) = Inl e"
| "first_error (Inr u # rs) = first_error rs"

definition typeof :: "jsval \<Rightarrow> string" where
  "typeof v = (case v of
      Undefined \<Rightarrow> ''undefined''
    | Null \<Rightarrow> ''object''
    | Num n \<Rightarrow> ''number''
    | Str s \<Rightarrow> ''string''
    | Bool b \<Rightarrow> ''boolean''
    | Date t \<Rightarrow> ''object''
    | Arr xs \<Rightarrow> ''object''
    | Obj kvs \<Rightarrow> ''object'')"

text \<open>\<open>isDate\<close> and \<open>Array.isArray\<close>.\<close>

definition isDate :: "jsval \<Rightarrow> bool" where
  "isDate v = (case v of Date t \<Rightarrow> True | _ \<Rightarrow> False)"

definition isArray :: "jsval \<Rightarrow> bool" where
  "isArray v = (case v of Arr xs \<Rightarrow> True | _ \<Rightarrow> False)"

section \<open>Key validation: checkKey and checkObject\<close>

text \<open>
  \<open>checkKey (k, v)\<close>. The keys it receives are property names, hence strings:
  the conversion of a number key is never taken. \<open>k[0] === '$'\<close> is false for the
  empty key.
\<close>

definition starts_with_dollar :: "string \<Rightarrow> bool" where
  "starts_with_dollar k = (case k of [] \<Rightarrow> False | c # cs \<Rightarrow> c = CHR ''$'')"

definition checkKey :: "string \<Rightarrow> jsval \<Rightarrow> error + unit" where
  "checkKey k v =
     (if starts_with_dollar k \<and>
         \<not> (k = ''$$date'' \<and> typeof v = ''number'') \<and>
         \<not> (k = ''$$deleted'' \<and> v = Bool True) \<and>
         \<not> (k = ''$$indexCreated'') \<and>
         \<not> (k = ''$$indexRemoved'') \<and>
         \<not> (k = ''$numberDecimal'')
      then Inl FieldDollar
      else if CHR ''.'' \<in> set k then Inl FieldDot
      else Inr ())"

text \<open>
  \<open>checkObject\<close>: an array is walked element by element, an object (a date has no own
  property) entry by entry, the key checked before the value is entered; everything else
  passes.
\<close>

fun checkObject :: "jsval \<Rightarrow> error + unit" where
  "checkObject (Arr xs) = first_error (map checkObject xs)"
| "checkObject (Obj kvs) =
     first_error (map (\<lambda>kv. and_then (checkKey (fst kv) (snd kv)) (\<lambda>u. checkObject (snd kv))) kvs)"
| "checkObject v = Inr ()"

text \<open>
  What the key rule speaks about: every entry (key with its value) of a document, at any
  nesting depth, inside arrays too.
\<close>

fun entries :: "jsval \<Rightarrow> (string \<times> jsval) list" where
  "entries (Arr xs) = concat (map entries xs)"
| "entries (Obj kvs) = concat (map (\<lambda>kv. kv # entries (snd kv)) kvs)"
| "entries v = []"

definition contains_dot :: "string \<Rightarrow> bool" where
  "contains_dot k = (CHR ''.'' \<in> set k)"

text \<open>
  The reserved shapes as the specification lists them: a key that begins with \<open>$\<close>, the
  four encoded forms apart, or a key with a dot.
\<close>

definition reserved_key_listed :: "string \<Rightarrow> jsval \<Rightarrow> bool" where
  "reserved_key_listed k v =
     ((starts_with_dollar k \<and>
       \<not> (k = ''$$date'' \<and> typeof v = ''number'') \<and>
       \<not> (k = ''$$deleted'' \<and> v = Bool True) \<and>
       k \<noteq> ''$$indexCreated'' \<and> k \<noteq> ''$$indexRemoved'')
      \<or> contains_dot k)"

text \<open>The same with the fifth exempt key, \<open>$numberDecimal\<close>.\<close>

definition reserved_key :: "string \<Rightarrow> jsval \<Rightarrow> bool" where
  "reserved_key k v =
     ((starts_with_dollar k \<and>
       \<not> (k = ''$$date'' \<and> typeof v = ''number'') \<and>
       \<not> (k = ''$$deleted'' \<and> v = Bool True) \<and>
       k \<noteq> ''$$indexCreated'' \<and> k \<noteq> ''$$indexRemoved'' \<and> k \<noteq> ''$numberDecimal'')
      \<or> contains_dot k)"

subsection \<open>Induction over values\<close>

lemma jsval_induct [case_names Undefined Null Num Str Bool Date Arr Obj]:
  assumes "P Undefined" "P Null" "\<And>n. P (Num n)" "\<And>s. P (Str s)" "\<And>b. P (Bool b)"
    "\<And>t. P (Date t)"
    "\<And>xs. (\<And>x. x \<in> set xs \<Longrightarrow> P x) \<Longrightarrow> P (Arr xs)"
    "\<And>kvs. (\<And>kv. kv \<in> set kvs \<Longrightarrow> P (snd kv)) \<Longrightarrow> P (Obj kvs)"
  shows "P v"
proof (induction v)
  case (Obj kvs)
  have "P (snd kv)" if "kv \<in> set kvs" for kv
    using that Obj[of kv "snd kv"] by (cases kv) (auto intro: snds.intros)
  then show ?case by (rule assms(8))
qed (auto intro: assms)

subsection \<open>checkObject rejects exactly the documents with a reserved key\<close>

lemma first_error_throws:
  "(\<exists>e. first_error rs = Inl e) \<longleftrightarrow> (\<exists>r \<in> set rs. \<exists>e. r = Inl e)"
  by (induction rs rule: first_error.induct) auto

lemma checkKey_throws: "(\<exists>e. checkKey k v = Inl e) \<longleftrightarrow> reserved_key k v"
  by (auto simp: checkKey_def reserved_key_def contains_dot_def)

lemma checkKey_passes: "checkKey k v = Inr () \<longleftrightarrow> \<not> reserved_key k v"
  by (auto simp: checkKey_def reserved_key_def contains_dot_def)

lemma entry_throws:
  "(\<exists>e. and_then (checkKey k v) (\<lambda>u. r) = Inl e) \<longleftrightarrow> reserved_key k v \<or> (\<exists>e. r = Inl e)"
proof (cases "reserved_key k v")
  case True
  then obtain e where "checkKey k v = Inl e" using checkKey_throws by blast
  with True show ?thesis by (simp add: and_then_def)
next
  case False
  then have "checkKey k v = Inr ()" by (simp add: checkKey_passes)
  with False show ?thesis by (simp add: and_then_def)
qed

text \<open>
  C6, as the specification states it, fails: a document with the key \<open>$numberDecimal\<close>
  has a key that begins with \<open>$\<close> and is none of the four encoded forms, and
  \<open>checkObject\<close> lets it pass.
\<close>

theorem checkObject_numberDecimal_counterexample:
  "checkObject (Obj [(''$numberDecimal'', Str ''1.5'')]) = Inr ()
   \<and> (''$numberDecimal'', Str ''1.5'') \<in> set (entries (Obj [(''$numberDecimal'', Str ''1.5'')]))
   \<and> reserved_key_listed ''$numberDecimal'' (Str ''1.5'')"
  by (simp add: checkKey_def and_then_def starts_with_dollar_def reserved_key_listed_def)

text \<open>
  C6, amended: \<open>checkObject doc\<close> throws if and only if some key of \<open>doc\<close>, at any
  nesting depth and inside arrays too, begins with \<open>$\<close> without being one of
  \<open>$$date\<close> with a number value, \<open>$$deleted\<close> with the value \<open>true\<close>,
  \<open>$$indexCreated\<close>, \<open>$$indexRemoved\<close> and \<open>$numberDecimal\<close>, or contains a dot.
\<close>

theorem checkObject_throws_iff:
  "(\<exists>e. checkObject d = Inl e) \<longleftrightarrow> (\<exists>kv \<in> set (entries d). reserved_key (fst kv) (snd kv))"
proof (induction d rule: jsval_induct)
  case (Arr xs)
  then show ?case by (auto simp: first_error_throws)
next
  case (Obj kvs)
  have "(\<exists>e. checkObject (Obj kvs) = Inl e) \<longleftrightarrow>
        (\<exists>kv \<in> set kvs. reserved_key (fst kv) (snd kv) \<or> (\<exists>e. checkObject (snd kv) = Inl e))"
    by (simp add: first_error_throws entry_throws)
  also have "\<dots> \<longleftrightarrow> (\<exists>kv \<in> set kvs. reserved_key (fst kv) (snd kv) \<or>
        (\<exists>p \<in> set (entries (snd kv)). reserved_key (fst p) (snd p)))"
    using Obj by blast
  also have "\<dots> \<longleftrightarrow> (\<exists>p \<in> set (entries (Obj kvs)). reserved_key (fst p) (snd p))"
    by auto
  finally show ?case .
qed simp_all

theorem checkObject_throws_iff_witness:
  "(\<exists>e. checkObject (Obj [(''a'', Arr [Obj [(''b.c'', Num 1)]])]) = Inl e)
   \<and> checkObject (Obj [(''a'', Arr [Obj [(''$$date'', Num 1)]])]) = Inr ()"
proof -
  have "\<exists>kv \<in> set (entries (Obj [(''a'', Arr [Obj [(''b.c'', Num 1)]])])). reserved_key (fst kv) (snd kv)"
    by (simp add: reserved_key_def contains_dot_def starts_with_dollar_def)
  then have "\<exists>e. checkObject (Obj [(''a'', Arr [Obj [(''b.c'', Num 1)]])]) = Inl e"
    by (rule iffD2 [OF checkObject_throws_iff])
  moreover have "\<not> (\<exists>kv \<in> set (entries (Obj [(''a'', Arr [Obj [(''$$date'', Num 1)]])])).
      reserved_key (fst kv) (snd kv))"
    by (simp add: reserved_key_def contains_dot_def starts_with_dollar_def typeof_def)
  then have "\<not> (\<exists>e. checkObject (Obj [(''a'', Arr [Obj [(''$$date'', Num 1)]])]) = Inl e)"
    using checkObject_throws_iff [of "Obj [(''a'', Arr [Obj [(''$$date'', Num 1)]])]"] by blast
  then have "checkObject (Obj [(''a'', Arr [Obj [(''$$date'', Num 1)]])]) = Inr ()"
    by (cases "checkObject (Obj [(''a'', Arr [Obj [(''$$date'', Num 1)]])])") auto
  ultimately show ?thesis by blast
qed

section \<open>Basic operations of the language\<close>

text \<open>
  Truthiness, the read of a property (own properties of an object, indices and
  \<open>length\<close> of an array or a string), \<open>parseInt (s, 10)\<close> and \<open>split ('.')\<close>.
  Characters are ASCII.
\<close>

definition truthy :: "jsval \<Rightarrow> bool" where
  "truthy v = (case v of
      Undefined \<Rightarrow> False
    | Null \<Rightarrow> False
    | Num n \<Rightarrow> n \<noteq> 0
    | Str s \<Rightarrow> s \<noteq> []
    | Bool b \<Rightarrow> b
    | _ \<Rightarrow> True)"

definition own :: "(string \<times> jsval) list \<Rightarrow> string \<Rightarrow> jsval" where
  "own kvs k = (case map_of kvs k of None \<Rightarrow> Undefined | Some v \<Rightarrow> v)"

definition digit_chars :: "string" where
  "digit_chars = ''0123456789''"

definition is_digit :: "char \<Rightarrow> bool" where
  "is_digit c = (c \<in> set digit_chars)"

definition digit_value :: "char \<Rightarrow> nat" where
  "digit_value c = (case map_of (zip digit_chars [0, 1, 2, 3, 4, 5, 6, 7, 8, 9]) c of None \<Rightarrow> 0 | Some d \<Rightarrow> d)"

definition digits_value :: "string \<Rightarrow> nat" where
  "digits_value ds = foldl (\<lambda>acc c. 10 * acc + digit_value c) 0 ds"

definition array_index :: "string \<Rightarrow> nat option" where
  "array_index k =
     (if k \<noteq> [] \<and> list_all is_digit k \<and> (k = ''0'' \<or> hd k \<noteq> CHR ''0'')
      then Some (digits_value k) else None)"

definition nth_or_undefined :: "jsval list \<Rightarrow> int \<Rightarrow> jsval" where
  "nth_or_undefined xs i = (if 0 \<le> i \<and> i < int (length xs) then xs ! nat i else Undefined)"

definition get_prop :: "jsval \<Rightarrow> string \<Rightarrow> jsval" where
  "get_prop v k = (case v of
      Obj kvs \<Rightarrow> own kvs k
    | Arr xs \<Rightarrow>
        (if k = ''length'' then Num (int (length xs))
         else case array_index k of None \<Rightarrow> Undefined | Some i \<Rightarrow> nth_or_undefined xs (int i))
    | Str s \<Rightarrow>
        (if k = ''length'' then Num (int (length s))
         else case array_index k of
                None \<Rightarrow> Undefined
              | Some i \<Rightarrow> if i < length s then Str [s ! i] else Undefined)
    | _ \<Rightarrow> Undefined)"

definition is_space :: "char \<Rightarrow> bool" where
  "is_space c = (c \<in> set [CHR 0x09, CHR 0x0A, CHR 0x0B, CHR 0x0C, CHR 0x0D, CHR 0x20])"

definition parseInt :: "string \<Rightarrow> int option" where
  "parseInt s =
     (let s1 = dropWhile is_space s;
          neg = (s1 \<noteq> [] \<and> hd s1 = CHR ''-'');
          s2 = (if s1 \<noteq> [] \<and> (hd s1 = CHR ''-'' \<or> hd s1 = CHR ''+'') then tl s1 else s1);
          ds = takeWhile is_digit s2
      in if ds = [] then None
         else Some (if neg then - int (digits_value ds) else int (digits_value ds)))"

fun split_dot :: "string \<Rightarrow> string list" where
  "split_dot [] = [[]]"
| "split_dot (c # cs) =
     (if c = CHR ''.'' then [] # split_dot cs
      else case split_dot cs of p # ps \<Rightarrow> (c # p) # ps | [] \<Rightarrow> [[c]])"


section \<open>Dotted paths: getDotValue\<close>

text \<open>
  \<open>getDotValue\<close> on the list of the path's components; \<open>getDotValue_field\<close> is the
  call with a string, split at the dots.
\<close>

fun getDotValue :: "jsval \<Rightarrow> string list \<Rightarrow> jsval" where
  "getDotValue obj [] = (if \<not> truthy obj then Undefined else obj)"
| "getDotValue obj [p] = (if \<not> truthy obj then Undefined else get_prop obj p)"
| "getDotValue obj (p # q # rest) =
     (if \<not> truthy obj then Undefined
      else case get_prop obj p of
          Arr xs \<Rightarrow>
            (case parseInt q of
               Some i \<Rightarrow> getDotValue (nth_or_undefined xs i) rest
             | None \<Rightarrow> Arr (map (\<lambda>el. getDotValue el (q # rest)) xs))
        | v \<Rightarrow> getDotValue v (q # rest))"

definition getDotValue_field :: "jsval \<Rightarrow> string \<Rightarrow> jsval" where
  "getDotValue_field obj field = getDotValue obj (split_dot field)"

lemma split_dot_nonempty: "split_dot s \<noteq> []"
  by (induction s) (auto split: list.splits)

lemma split_dot_component:
  "\<not> contains_dot p \<Longrightarrow> split_dot (p @ CHR ''.'' # s) = p # split_dot s"
  by (induction p) (auto simp: contains_dot_def split: list.splits)

text \<open>
  C10: in an object whose field \<open>f\<close> holds an array, the path \<open>f.k.rest\<close> resolves, when
  \<open>parseInt (k, 10)\<close> is a number, from the single element of the array at that index
  (\<open>undefined\<close> outside the array) along \<open>rest\<close>; when it is \<open>NaN\<close>, to the array
  of the resolutions of \<open>k.rest\<close> from every element.
\<close>

theorem getDotValue_array_component:
  assumes "own kvs f = Arr xs" "\<not> contains_dot f" "\<not> contains_dot k"
  shows "getDotValue_field (Obj kvs) (f @ ''.'' @ k @ ''.'' @ rest) =
           (case parseInt k of
              Some i \<Rightarrow> getDotValue (nth_or_undefined xs i) (split_dot rest)
            | None \<Rightarrow> Arr (map (\<lambda>el. getDotValue el (k # split_dot rest)) xs))"
proof -
  have "split_dot (f @ ''.'' @ k @ ''.'' @ rest) = f # k # split_dot rest"
    using assms(2,3) by (simp add: split_dot_component)
  then show ?thesis
    using assms(1) by (simp add: getDotValue_field_def truthy_def get_prop_def)
qed

theorem getDotValue_array_component_witness:
  "getDotValue_field (Obj [(''f'', Arr [Obj [(''a'', Num 1)], Obj [(''a'', Num 2)]])]) ''f.1.a'' = Num 2
   \<and> getDotValue_field (Obj [(''f'', Arr [Obj [(''a'', Num 1)], Obj [(''a'', Num 2)]])]) ''f.a.b''
       = Arr [Undefined, Undefined]"
proof -
  let ?kvs = "[(''f'', Arr [Obj [(''a'', Num 1)], Obj [(''a'', Num 2)]])]"
  have 1: "own ?kvs ''f'' = Arr [Obj [(''a'', Num 1)], Obj [(''a'', Num 2)]]"
    by (simp add: own_def)
  have p1: "parseInt ''1'' = Some 1"
    by (simp add: parseInt_def is_space_def is_digit_def digit_chars_def digits_value_def digit_value_def)
  have p2: "parseInt ''a'' = None"
    by (simp add: parseInt_def is_space_def is_digit_def digit_chars_def)
  have "getDotValue_field (Obj ?kvs) (''f'' @ ''.'' @ ''1'' @ ''.'' @ ''a'') = Num 2"
    using getDotValue_array_component [of ?kvs "''f''" _ "''1''" "''a''", OF 1]
    by (simp add: contains_dot_def p1 nth_or_undefined_def truthy_def get_prop_def own_def)
  moreover have "getDotValue_field (Obj ?kvs) (''f'' @ ''.'' @ ''a'' @ ''.'' @ ''b'')
      = Arr [Undefined, Undefined]"
    using getDotValue_array_component [of ?kvs "''f''" _ "''a''" "''b''", OF 1]
    by (simp add: contains_dot_def p2 truthy_def get_prop_def own_def)
  ultimately show ?thesis by simp
qed

section \<open>Identifier test of the mongoose shim\<close>

text \<open>
  \<open>isMongoId (input)\<close> is \<open>typeof input === 'object' && input.constructor &&
  input.constructor.name.toUpperCase() === 'OBJECTID'\<close>. The read of \<open>constructor\<close> on
  \<open>null\<close> throws. A date, an array and an object without an own property
  \<open>constructor\<close> inherit a constructor function named otherwise. An own property
  \<open>constructor\<close> is read as any value: a falsy one ends the conjunction, a truthy one
  must be an object whose \<open>name\<close> is a string, or the call of \<open>toUpperCase\<close> throws.
  When the test succeeds the value is replaced by \<open>toString()\<close> of it.
\<close>

definition upper_char :: "char \<Rightarrow> char" where
  "upper_char c =
     (case map_of (zip ''abcdefghijklmnopqrstuvwxyz'' ''ABCDEFGHIJKLMNOPQRSTUVWXYZ'') c of
        None \<Rightarrow> c | Some u \<Rightarrow> u)"

definition toUpperCase :: "string \<Rightarrow> string" where
  "toUpperCase s = map upper_char s"

definition isMongoId :: "jsval \<Rightarrow> error + bool" where
  "isMongoId input = (case input of
      Null \<Rightarrow> Inl TypeError
    | Obj kvs \<Rightarrow>
        (case map_of kvs ''constructor'' of
           None \<Rightarrow> Inr False
         | Some c \<Rightarrow>
             if \<not> truthy c then Inr False
             else (case c of
                 Obj cs \<Rightarrow>
                   (case map_of cs ''name'' of
                      Some (Str n) \<Rightarrow> Inr (toUpperCase n = toUpperCase ''ObjectID'')
                    | _ \<Rightarrow> Inl TypeError)
               | _ \<Rightarrow> Inl TypeError))
    | _ \<Rightarrow> Inr False)"

definition toString_call :: "jsval \<Rightarrow> error + jsval" where
  "toString_call v = (case v of
      Obj kvs \<Rightarrow> (case map_of kvs ''toString'' of
                     None \<Rightarrow> Inr (Str ''[object Object]'')
                   | Some f \<Rightarrow> Inl TypeError)
    | _ \<Rightarrow> Inr v)"

definition unwrapMongoId :: "jsval \<Rightarrow> error + jsval" where
  "unwrapMongoId a =
     and_then (isMongoId a) (\<lambda>is_id. if is_id then toString_call a else Inr a)"

section \<open>The comparator: compareThings\<close>

text \<open>
  \<open>compareNSB\<close> at the types it is called at; two invalid dates, or a valid and an
  invalid one, are neither smaller nor greater. The elements of arrays and the values of
  objects are compared without the custom string comparator, as in the source. The keys
  of an object are sorted by code units.
\<close>

definition compareNSB_int :: "int \<Rightarrow> int \<Rightarrow> int" where
  "compareNSB_int a b = (if a < b then -1 else if a > b then 1 else 0)"

definition compareNSB_str :: "string \<Rightarrow> string \<Rightarrow> int" where
  "compareNSB_str a b = (if a < b then -1 else if a > b then 1 else 0)"

definition compareNSB_bool :: "bool \<Rightarrow> bool \<Rightarrow> int" where
  "compareNSB_bool a b = (if \<not> a \<and> b then -1 else if a \<and> \<not> b then 1 else 0)"

definition compareNSB_time :: "int option \<Rightarrow> int option \<Rightarrow> int" where
  "compareNSB_time a b = (case (a, b) of
      (Some x, Some y) \<Rightarrow> compareNSB_int x y
    | _ \<Rightarrow> 0)"

fun first_nonzero :: "(error + int) list \<Rightarrow> error + int" where
  "first_nonzero [] = Inr 0"
| "first_nonzero (Inl e # rs) = Inl e"
| "first_nonzero (Inr c # rs) = (if c \<noteq> 0 then Inr c else first_nonzero rs)"

definition sorted_values :: "(string \<times> jsval) list \<Rightarrow> jsval list" where
  "sorted_values kvs = map (own kvs) (sort (map fst kvs))"

lemma size_nth_or_undefined_less: "x \<in> set xs \<Longrightarrow> size x < Suc (size_list size xs)"
  by (induction xs) auto

lemma size_own_less:
  "x \<in> set (sorted_values kvs) \<Longrightarrow> size x < Suc (size_list (size_prod (\<lambda>_. 0) size) kvs)"
proof -
  assume "x \<in> set (sorted_values kvs)"
  then obtain k where k: "k \<in> set (map fst kvs)" and x: "x = own kvs k"
    by (auto simp: sorted_values_def)
  then obtain v where "map_of kvs k = Some v"
    by (metis map_of_eq_None_iff not_Some_eq set_map)
  then have "(k, v) \<in> set kvs" "x = v" using x by (auto simp: own_def dest: map_of_SomeD)
  then show ?thesis by (induction kvs) auto
qed

function compareThings :: "(string \<Rightarrow> string \<Rightarrow> int) \<Rightarrow> jsval \<Rightarrow> jsval \<Rightarrow> error + int" where
  "compareThings compareStrings a0 b0 =
     (case unwrapMongoId a0 of Inl e \<Rightarrow> Inl e | Inr a \<Rightarrow>
      case unwrapMongoId b0 of Inl e \<Rightarrow> Inl e | Inr b \<Rightarrow>
      if a = Undefined then Inr (if b = Undefined then 0 else -1)
      else if b = Undefined then Inr 1
      else if a = Null then Inr (if b = Null then 0 else -1)
      else if b = Null then Inr 1
      else case (a, b) of
          (Num x, Num y) \<Rightarrow> Inr (compareNSB_int x y)
        | (Num x, _) \<Rightarrow> Inr (-1)
        | (_, Num y) \<Rightarrow> Inr 1
        | (Str x, Str y) \<Rightarrow> Inr (compareStrings x y)
        | (Str x, _) \<Rightarrow> Inr (-1)
        | (_, Str y) \<Rightarrow> Inr 1
        | (Bool x, Bool y) \<Rightarrow> Inr (compareNSB_bool x y)
        | (Bool x, _) \<Rightarrow> Inr (-1)
        | (_, Bool y) \<Rightarrow> Inr 1
        | (Date x, Date y) \<Rightarrow> Inr (compareNSB_time x y)
        | (Date x, _) \<Rightarrow> Inr (-1)
        | (_, Date y) \<Rightarrow> Inr 1
        | (Arr xs, Arr ys) \<Rightarrow>
            (case first_nonzero (map (\<lambda>p. compareThings compareNSB_str (fst p) (snd p)) (zip xs ys)) of
               Inl e \<Rightarrow> Inl e
             | Inr c \<Rightarrow> if c \<noteq> 0 then Inr c
                        else Inr (compareNSB_int (int (length xs)) (int (length ys))))
        | (Arr xs, _) \<Rightarrow> Inr (-1)
        | (_, Arr ys) \<Rightarrow> Inr 1
        | (Obj as, Obj bs) \<Rightarrow>
            (case first_nonzero (map (\<lambda>p. compareThings compareNSB_str (fst p) (snd p))
                                   (zip (sorted_values as) (sorted_values bs))) of
               Inl e \<Rightarrow> Inl e
             | Inr c \<Rightarrow> if c \<noteq> 0 then Inr c
                        else Inr (compareNSB_int (int (length as)) (int (length bs))))
        | _ \<Rightarrow> Inr 0)"
  by pat_completeness auto


lemma unwrapMongoId_Arr: "unwrapMongoId a0 = Inr (Arr xs) \<Longrightarrow> a0 = Arr xs"
  by (auto simp: unwrapMongoId_def and_then_def toString_call_def
      split: sum.splits if_splits jsval.splits option.splits)

lemma unwrapMongoId_Obj: "unwrapMongoId a0 = Inr (Obj kvs) \<Longrightarrow> a0 = Obj kvs"
  by (auto simp: unwrapMongoId_def and_then_def toString_call_def
      split: sum.splits if_splits jsval.splits option.splits)

termination compareThings
proof (relation "measure (\<lambda>(cs, a, b). size a + size b)", goal_cases)
  case 1
  show ?case by simp
next
  case (2 cs a0 b0 a b x1 x2 xs ys p)
  then have "a0 = Arr xs" "b0 = Arr ys"
    by (auto dest: unwrapMongoId_Arr)
  moreover have "fst p \<in> set xs" "snd p \<in> set ys"
    using 2 by (auto dest: set_zip_leftD set_zip_rightD simp: prod_eq_iff) (metis in_set_zipE prod.collapse)+
  ultimately show ?case
    using size_nth_or_undefined_less[of "fst p" xs] size_nth_or_undefined_less[of "snd p" ys]
    by (simp add: case_prod_beta)
next
  case (3 cs a0 b0 a b x1 x2 as bs p)
  then have "a0 = Obj as" "b0 = Obj bs"
    by (auto dest: unwrapMongoId_Obj)
  moreover have "fst p \<in> set (sorted_values as)" "snd p \<in> set (sorted_values bs)"
    using 3 by (metis in_set_zipE prod.collapse)+
  ultimately show ?case
    using size_own_less[of "fst p" as] size_own_less[of "snd p" bs]
    by (simp add: case_prod_beta)
qed

declare compareThings.simps [simp del]

definition type_rank :: "jsval \<Rightarrow> nat" where
  "type_rank v = (case v of
      Undefined \<Rightarrow> 0 | Null \<Rightarrow> 1 | Num n \<Rightarrow> 2 | Str s \<Rightarrow> 3
    | Bool b \<Rightarrow> 4 | Date t \<Rightarrow> 5 | Arr xs \<Rightarrow> 6 | Obj kvs \<Rightarrow> 7)"

text \<open>
  C3: the hierarchy puts \<open>null\<close> between \<open>undefined\<close> and the numbers, but a comparison
  with \<open>null\<close> on either side throws a TypeError, from \<open>isMongoId\<close>, before the
  branch for \<open>null\<close> is reached.
\<close>

theorem compareThings_null_throws:
  "compareThings compareNSB_str Null (Num 1) = Inl TypeError
   \<and> compareThings compareNSB_str (Num 1) Null = Inl TypeError
   \<and> compareThings compareNSB_str Undefined Null = Inl TypeError"
  by (simp add: compareThings.simps unwrapMongoId_def isMongoId_def and_then_def)

text \<open>Between values that pass the identifier test, the hierarchy holds.\<close>

lemma compareThings_hierarchy:
  assumes "unwrapMongoId a = Inr a" "unwrapMongoId b = Inr b" "type_rank a \<noteq> type_rank b"
  shows "compareThings cs a b = Inr (if type_rank a < type_rank b then -1 else 1)"
  using assms
  by (subst compareThings.simps, cases a; cases b) (simp_all add: type_rank_def)

lemma unwrapMongoId_plain:
  "a \<noteq> Null \<Longrightarrow> (\<forall>kvs. a = Obj kvs \<longrightarrow> map_of kvs ''constructor'' = None) \<Longrightarrow> unwrapMongoId a = Inr a"
  by (cases a) (auto simp: unwrapMongoId_def isMongoId_def and_then_def)

section \<open>Deep equality\<close>

fun all_true :: "(error + bool) list \<Rightarrow> error + bool" where
  "all_true [] = Inr True"
| "all_true (Inl e # rs) = Inl e"
| "all_true (Inr b # rs) = (if b then all_true rs else Inr False)"

definition is_primitive_or_null :: "jsval \<Rightarrow> bool" where
  "is_primitive_or_null a =
     (a = Null \<or> typeof a = ''string'' \<or> typeof a = ''boolean'' \<or> typeof a = ''number'')"

lemma size_entry_less:
  "(k, v) \<in> set kvs \<Longrightarrow> size v < Suc (size_list (size_prod (\<lambda>_. 0) size) kvs)"
  by (induction kvs) auto

lemma size_own_key_less:
  assumes "k \<in> set (map fst kvs)"
  shows "size (own kvs k) < Suc (size_list (size_prod (\<lambda>_. 0) size) kvs)"
proof -
  obtain v where "map_of kvs k = Some v"
    using assms by (metis map_of_eq_None_iff not_Some_eq set_map)
  then have "(k, v) \<in> set kvs" "own kvs k = v" by (auto simp: own_def dest: map_of_SomeD)
  then show ?thesis using size_entry_less[of k v kvs] by simp
qed

function areThingsEqual :: "jsval \<Rightarrow> jsval \<Rightarrow> error + bool" where
  "areThingsEqual a0 b0 =
     (case unwrapMongoId a0 of Inl e \<Rightarrow> Inl e | Inr a \<Rightarrow>
      case unwrapMongoId b0 of Inl e \<Rightarrow> Inl e | Inr b \<Rightarrow>
      if is_primitive_or_null a \<or> is_primitive_or_null b then Inr (a = b)
      else if isDate a \<or> isDate b then
        Inr (case (a, b) of (Date (Some x), Date (Some y)) \<Rightarrow> x = y | _ \<Rightarrow> False)
      else if (\<not> (isArray a \<and> isArray b) \<and> (isArray a \<or> isArray b))
              \<or> a = Undefined \<or> b = Undefined then Inr False
      else case (a, b) of
          (Arr xs, Arr ys) \<Rightarrow>
            if length xs \<noteq> length ys then Inr False
            else all_true (map (\<lambda>p. areThingsEqual (fst p) (snd p)) (zip xs ys))
        | (Obj as, Obj bs) \<Rightarrow>
            if length as \<noteq> length bs then Inr False
            else all_true (map (\<lambda>k. if k \<notin> set (map fst bs) then Inr False
                                     else areThingsEqual (own as k) (own bs k)) (map fst as))
        | _ \<Rightarrow> Inr False)"
  by pat_completeness auto
termination
proof (relation "measure (\<lambda>(a, b). size a)", goal_cases)
  case 1
  show ?case by simp
next
  case (2 a0 b0 a b x1 x2 xs ys p)
  then have "a0 = Arr xs" by (auto dest: unwrapMongoId_Arr)
  moreover have "fst p \<in> set xs" using 2 by (metis in_set_zipE prod.collapse)
  ultimately show ?case
    using size_nth_or_undefined_less[of "fst p" xs] by (simp add: case_prod_beta)
next
  case (3 a0 b0 a b x1 x2 as bs k)
  then have "a0 = Obj as" by (auto dest: unwrapMongoId_Obj)
  moreover have "k \<in> set (map fst as)" using 3 by simp
  ultimately show ?case using size_own_key_less[of k as] by simp
qed

declare areThingsEqual.simps [simp del]

section \<open>Comparison operators of the query language\<close>

definition areComparable :: "jsval \<Rightarrow> jsval \<Rightarrow> bool" where
  "areComparable a b =
     (if typeof a \<noteq> ''string'' \<and> typeof a \<noteq> ''number'' \<and> \<not> isDate a \<and>
         typeof b \<noteq> ''string'' \<and> typeof b \<noteq> ''number'' \<and> \<not> isDate b then False
      else if typeof a \<noteq> typeof b then False
      else True)"

text \<open>
  The parts of the JavaScript runtime that the code relies on and that are no code of
  the repository are parameters: the conversion of an array or a plain object to a
  primitive (a string, or a TypeError), of a string to a number (\<open>None\<close> is \<open>NaN\<close>),
  the time value of \<open>new Date (v)\<close> for a string, an array or an object, the ISO string of
  a time value, the RegExp constructor with the test of the expression it builds, and the
  compilation of the string of a \<open>$where\<close>.
\<close>

record runtime =
  object_to_primitive :: "jsval \<Rightarrow> error + string"
  string_to_number :: "string \<Rightarrow> int option"
  date_of :: "jsval \<Rightarrow> int option"
  iso_string :: "int \<Rightarrow> string"
  new_RegExp :: "jsval \<Rightarrow> jsval \<Rightarrow> error + (string \<Rightarrow> bool)"
  new_Function :: "string \<Rightarrow> (jsval \<Rightarrow> error + jsval) option"

text \<open>A runtime in which every conversion of an object fails, for closed examples.\<close>

definition bare_runtime :: runtime where
  "bare_runtime =
     \<lparr> object_to_primitive = (\<lambda>v. Inl TypeError),
       string_to_number = (\<lambda>s. None),
       date_of = (\<lambda>v. None),
       iso_string = (\<lambda>t. []),
       new_RegExp = (\<lambda>p f. Inl SyntaxError),
       new_Function = (\<lambda>s. None) \<rparr>"

datatype prim = PUndefined | PNull | PNum "int option" | PStr string | PBool bool

definition to_primitive :: "runtime \<Rightarrow> jsval \<Rightarrow> error + prim" where
  "to_primitive rt v = (case v of
      Undefined \<Rightarrow> Inr PUndefined
    | Null \<Rightarrow> Inr PNull
    | Num n \<Rightarrow> Inr (PNum (Some n))
    | Str s \<Rightarrow> Inr (PStr s)
    | Bool b \<Rightarrow> Inr (PBool b)
    | Date t \<Rightarrow> Inr (PNum t)
    | _ \<Rightarrow> and_then (object_to_primitive rt v) (\<lambda>s. Inr (PStr s)))"

definition to_number :: "runtime \<Rightarrow> prim \<Rightarrow> int option" where
  "to_number rt p = (case p of
      PUndefined \<Rightarrow> None
    | PNull \<Rightarrow> Some 0
    | PNum n \<Rightarrow> n
    | PStr s \<Rightarrow> string_to_number rt s
    | PBool b \<Rightarrow> Some (if b then 1 else 0))"

definition js_less :: "runtime \<Rightarrow> jsval \<Rightarrow> jsval \<Rightarrow> error + bool option" where
  "js_less rt a b =
     and_then (to_primitive rt a) (\<lambda>pa.
     and_then (to_primitive rt b) (\<lambda>pb.
       case (pa, pb) of
         (PStr s, PStr t) \<Rightarrow> Inr (Some (s < t))
       | _ \<Rightarrow> (case (to_number rt pa, to_number rt pb) of
                  (Some x, Some y) \<Rightarrow> Inr (Some (x < y))
                | _ \<Rightarrow> Inr None)))"

definition js_lt :: "runtime \<Rightarrow> jsval \<Rightarrow> jsval \<Rightarrow> error + bool" where
  "js_lt rt a b = and_then (js_less rt a b) (\<lambda>r. Inr (r = Some True))"

definition js_gt :: "runtime \<Rightarrow> jsval \<Rightarrow> jsval \<Rightarrow> error + bool" where
  "js_gt rt a b = and_then (js_less rt b a) (\<lambda>r. Inr (r = Some True))"

definition js_le :: "runtime \<Rightarrow> jsval \<Rightarrow> jsval \<Rightarrow> error + bool" where
  "js_le rt a b = and_then (js_less rt b a) (\<lambda>r. Inr (r = Some False))"

definition js_ge :: "runtime \<Rightarrow> jsval \<Rightarrow> jsval \<Rightarrow> error + bool" where
  "js_ge rt a b = and_then (js_less rt a b) (\<lambda>r. Inr (r = Some False))"

definition comparison_lt :: "runtime \<Rightarrow> jsval \<Rightarrow> jsval \<Rightarrow> error + bool" where
  "comparison_lt rt a b = (if areComparable a b then js_lt rt a b else Inr False)"

definition comparison_lte :: "runtime \<Rightarrow> jsval \<Rightarrow> jsval \<Rightarrow> error + bool" where
  "comparison_lte rt a b = (if areComparable a b then js_le rt a b else Inr False)"

definition comparison_gt :: "runtime \<Rightarrow> jsval \<Rightarrow> jsval \<Rightarrow> error + bool" where
  "comparison_gt rt a b = (if areComparable a b then js_gt rt a b else Inr False)"

definition comparison_gte :: "runtime \<Rightarrow> jsval \<Rightarrow> jsval \<Rightarrow> error + bool" where
  "comparison_gte rt a b = (if areComparable a b then js_ge rt a b else Inr False)"

text \<open>
  C8: a date and \<open>null\<close> are not two dates, and yet they pass \<open>areComparable\<close> (both
  have \<open>typeof\<close> \<open>object\<close> and one is a date); the comparison then coerces \<open>null\<close>
  to 0 and can return \<open>true\<close>.
\<close>

theorem comparison_date_null:
  "comparison_lt rt (Date (Some (- 5))) Null = Inr True
   \<and> comparison_lte rt (Date (Some 0)) Null = Inr True
   \<and> comparison_gt rt Null (Date (Some (- 5))) = Inr True
   \<and> comparison_gte rt Null (Date (Some 0)) = Inr True"
  by (simp add: comparison_lt_def comparison_lte_def comparison_gt_def comparison_gte_def
      areComparable_def typeof_def isDate_def js_lt_def js_le_def js_gt_def js_ge_def
      js_less_def to_primitive_def to_number_def and_then_def)

text \<open>When \<open>areComparable\<close> fails, the four operators return \<open>false\<close>.\<close>

lemma comparison_not_comparable:
  "\<not> areComparable a b \<Longrightarrow>
     comparison_lt rt a b = Inr False \<and> comparison_lte rt a b = Inr False \<and>
     comparison_gt rt a b = Inr False \<and> comparison_gte rt a b = Inr False"
  by (simp add: comparison_lt_def comparison_lte_def comparison_gt_def comparison_gte_def)


section \<open>Serialization\<close>

text \<open>
  \<open>serialize\<close> is \<open>JSON.stringify\<close> with a replacer, \<open>deserialize\<close> is
  \<open>JSON.parse\<close> with a reviver. The line is modelled by the JSON value that it
  denotes: the text that \<open>JSON.stringify\<close> prints for a JSON value and the value that
  \<open>JSON.parse\<close> reads from that text belong to the runtime. What the embedding follows
  is the walk of the two functions: \<open>toJSON\<close> of a date before the replacer sees the
  value, the replacer at every property (the root under the empty key, the elements of an
  array under their indices), the object that the replacer returns for a date serialised
  in its turn; then the reviver at every property, children first.
\<close>

datatype json =
    JNull | JNum int | JStr string | JBool bool
  | JArr "json list" | JObj "(string \<times> json) list"

definition digit_char :: "nat \<Rightarrow> char" where
  "digit_char d = digit_chars ! d"

function string_of_nat :: "nat \<Rightarrow> string" where
  "string_of_nat n =
     (if n < 10 then [digit_char n] else string_of_nat (n div 10) @ [digit_char (n mod 10)])"
  by pat_completeness auto
termination
  by (relation "measure id") auto

declare string_of_nat.simps [simp del]

definition toJSON :: "runtime \<Rightarrow> jsval \<Rightarrow> jsval" where
  "toJSON rt v = (case v of
      Date None \<Rightarrow> Null
    | Date (Some t) \<Rightarrow> Str (iso_string rt t)
    | _ \<Rightarrow> v)"

fun collect :: "(error + 'a) list \<Rightarrow> error + 'a list" where
  "collect [] = Inr []"
| "collect (Inl e # rs) = Inl e"
| "collect (Inr x # rs) = (case collect rs of Inl e \<Rightarrow> Inl e | Inr xs \<Rightarrow> Inr (x # xs))"

definition array_slot :: "json option \<Rightarrow> json" where
  "array_slot j = (case j of None \<Rightarrow> JNull | Some x \<Rightarrow> x)"

fun members :: "(string \<times> json option) list \<Rightarrow> (string \<times> json) list" where
  "members [] = []"
| "members ((k, None) # ms) = members ms"
| "members ((k, Some j) # ms) = (k, j) # members ms"

function serialize_property :: "runtime \<Rightarrow> string \<Rightarrow> jsval \<Rightarrow> error + json option" where
  "serialize_property rt k held =
     (case checkKey k (toJSON rt held) of Inl e \<Rightarrow> Inl e | Inr u \<Rightarrow>
      if toJSON rt held = Undefined then Inr None
      else if toJSON rt held = Null then Inr (Some JNull)
      else case held of
          Date t \<Rightarrow>
            (case t of None \<Rightarrow> Inr None
             | Some n \<Rightarrow>
                (case checkKey ''$$date'' (Num n) of Inl e \<Rightarrow> Inl e
                 | Inr u \<Rightarrow> Inr (Some (JObj [(''$$date'', JNum n)]))))
        | Num n \<Rightarrow> Inr (Some (JNum n))
        | Str s \<Rightarrow> Inr (Some (JStr s))
        | Bool b \<Rightarrow> Inr (Some (JBool b))
        | Arr xs \<Rightarrow>
            (case collect (map (\<lambda>p. serialize_property rt (string_of_nat (fst p)) (snd p))
                            (zip [0 ..< length xs] xs)) of
               Inl e \<Rightarrow> Inl e
             | Inr js \<Rightarrow> Inr (Some (JArr (map array_slot js))))
        | Obj kvs \<Rightarrow>
            (case collect (map (\<lambda>kv. case serialize_property rt (fst kv) (snd kv) of
                                      Inl e \<Rightarrow> Inl e | Inr j \<Rightarrow> Inr (fst kv, j)) kvs) of
               Inl e \<Rightarrow> Inl e
             | Inr ms \<Rightarrow> Inr (Some (JObj (members ms))))
        | _ \<Rightarrow> Inr None)"
  by pat_completeness auto
termination
proof (relation "measure (\<lambda>(rt, k, held). size held)", goal_cases)
  case 1
  show ?case by simp
next
  case (2 rt k held u xs p)
  then have "snd p \<in> set xs" by (metis in_set_zipE prod.collapse)
  then show ?case using 2 size_nth_or_undefined_less[of "snd p" xs] by (simp add: case_prod_beta)
next
  case (3 rt k held u kvs kv)
  then have "(fst kv, snd kv) \<in> set kvs" by simp
  then show ?case using 3 size_entry_less[of "fst kv" "snd kv" kvs] by (simp add: case_prod_beta)
qed

declare serialize_property.simps [simp del]

definition serialize :: "runtime \<Rightarrow> jsval \<Rightarrow> error + json option" where
  "serialize rt obj = serialize_property rt [] obj"

definition time_clip :: "int \<Rightarrow> int option" where
  "time_clip n = (if \<bar>n\<bar> \<le> 8640000000000000 then Some n else None)"

definition new_Date :: "runtime \<Rightarrow> jsval \<Rightarrow> jsval" where
  "new_Date rt v = Date (case v of
      Num n \<Rightarrow> time_clip n
    | Null \<Rightarrow> Some 0
    | Bool b \<Rightarrow> Some (if b then 1 else 0)
    | Undefined \<Rightarrow> None
    | Date t \<Rightarrow> t
    | _ \<Rightarrow> date_of rt v)"

definition reviver :: "runtime \<Rightarrow> string \<Rightarrow> jsval \<Rightarrow> jsval" where
  "reviver rt k v =
     (if k = ''$$date'' then new_Date rt v
      else if typeof v = ''string'' \<or> typeof v = ''number'' \<or> typeof v = ''boolean'' \<or> v = Null
        then v
      else if truthy v \<and> truthy (get_prop v ''$$date'') then get_prop v ''$$date''
      else v)"

lemma size_list_member: "x \<in> set xs \<Longrightarrow> f x < Suc (size_list f xs)"
  by (induction xs) auto

function internalize :: "runtime \<Rightarrow> string \<Rightarrow> json \<Rightarrow> jsval" where
  "internalize rt k JNull = reviver rt k Null"
| "internalize rt k (JNum n) = reviver rt k (Num n)"
| "internalize rt k (JStr s) = reviver rt k (Str s)"
| "internalize rt k (JBool b) = reviver rt k (Bool b)"
| "internalize rt k (JArr js) =
     reviver rt k (Arr (map (\<lambda>p. internalize rt (string_of_nat (fst p)) (snd p))
                          (zip [0 ..< length js] js)))"
| "internalize rt k (JObj ms) =
     reviver rt k (Obj (map (\<lambda>m. (fst m, internalize rt (fst m) (snd m))) ms))"
  by pat_completeness auto
termination
proof (relation "measure (\<lambda>(rt, k, j). size j)", goal_cases)
  case 1
  show ?case by simp
next
  case (2 rt k js p)
  then have "snd p \<in> set js" by (metis in_set_zipE prod.collapse)
  then show ?case using size_list_member[of "snd p" js size] by (simp add: case_prod_beta)
next
  case (3 rt k ms m)
  then have "size_prod (\<lambda>_. 0) size m < Suc (size_list (size_prod (\<lambda>_. 0) size) ms)"
    by (rule size_list_member)
  then show ?case by (cases m) (simp add: case_prod_beta)
qed

definition deserialize :: "runtime \<Rightarrow> json \<Rightarrow> jsval" where
  "deserialize rt rawData = internalize rt [] rawData"

fun valid_doc :: "jsval \<Rightarrow> bool" where
  "valid_doc Undefined = False"
| "valid_doc Null = True"
| "valid_doc (Num n) = True"
| "valid_doc (Str s) = True"
| "valid_doc (Bool b) = True"
| "valid_doc (Date t) = (case t of None \<Rightarrow> False | Some n \<Rightarrow> \<bar>n\<bar> \<le> 8640000000000000)"
| "valid_doc (Arr xs) = list_all valid_doc xs"
| "valid_doc (Obj kvs) =
     list_all (\<lambda>kv. \<not> starts_with_dollar (fst kv) \<and> \<not> contains_dot (fst kv) \<and> valid_doc (snd kv)) kvs"

definition plain_key :: "string \<Rightarrow> bool" where
  "plain_key k = (\<not> starts_with_dollar k \<and> \<not> contains_dot k)"

lemma checkKey_plain: "plain_key k \<Longrightarrow> checkKey k v = Inr ()"
  by (simp add: plain_key_def checkKey_def contains_dot_def)

lemma plain_key_not_date: "plain_key k \<Longrightarrow> k \<noteq> ''$$date''"
  by (auto simp: plain_key_def starts_with_dollar_def)

lemma digit_char_in: "d < 10 \<Longrightarrow> digit_char d \<in> set digit_chars"
  unfolding digit_char_def by (rule nth_mem) (simp add: digit_chars_def)

lemma checkKey_date_number: "checkKey ''$$date'' (Num n) = Inr ()"
  by (simp add: checkKey_def typeof_def starts_with_dollar_def)

lemma string_of_nat_digits: "set (string_of_nat n) \<subseteq> set digit_chars \<and> string_of_nat n \<noteq> []"
proof (induction n rule: string_of_nat.induct)
  case (1 n)
  show ?case
  proof (cases "n < 10")
    case True
    then show ?thesis by (subst (1 2) string_of_nat.simps) (simp add: digit_char_in)
  next
    case False
    then show ?thesis using 1 by (subst (1 2) string_of_nat.simps) (simp add: digit_char_in)
  qed
qed

lemma plain_key_index: "plain_key (string_of_nat n)"
proof -
  have "set (string_of_nat n) \<subseteq> set digit_chars" "string_of_nat n \<noteq> []"
    using string_of_nat_digits by auto
  then show ?thesis
    by (cases "string_of_nat n")
       (auto simp: plain_key_def starts_with_dollar_def contains_dot_def digit_chars_def)
qed

lemma plain_key_empty: "plain_key []"
  by (simp add: plain_key_def starts_with_dollar_def contains_dot_def)

lemma collect_map_Inr: "collect (map Inr ys) = Inr ys"
  by (induction ys) auto

lemma own_absent: "k \<notin> fst ` set kvs \<Longrightarrow> own kvs k = Undefined"
  by (simp add: own_def map_of_eq_None_iff[THEN iffD2])

lemma roundtrip_entries:
  assumes "\<And>kv. kv \<in> set kvs \<Longrightarrow>
            \<exists>j. serialize_property rt (fst kv) (snd kv) = Inr (Some j) \<and> internalize rt (fst kv) j = snd kv"
  shows "\<exists>ms. collect (map (\<lambda>kv. case serialize_property rt (fst kv) (snd kv) of
                                   Inl e \<Rightarrow> Inl e | Inr j \<Rightarrow> Inr (fst kv, j)) kvs) = Inr ms
              \<and> map (\<lambda>m. (fst m, internalize rt (fst m) (snd m))) (members ms) = kvs"
  using assms
proof (induction kvs)
  case Nil
  then show ?case by simp
next
  case (Cons kv kvs)
  obtain j where j: "serialize_property rt (fst kv) (snd kv) = Inr (Some j)"
      "internalize rt (fst kv) j = snd kv"
    using Cons.prems[of kv] by auto
  obtain ms where ms: "collect (map (\<lambda>kv. case serialize_property rt (fst kv) (snd kv) of
                                   Inl e \<Rightarrow> Inl e | Inr j \<Rightarrow> Inr (fst kv, j)) kvs) = Inr ms"
      "map (\<lambda>m. (fst m, internalize rt (fst m) (snd m))) (members ms) = kvs"
    using Cons.IH Cons.prems by auto
  show ?case using j ms by simp
qed

lemma roundtrip_elements:
  assumes "\<And>x k. x \<in> set xs \<Longrightarrow> plain_key k \<Longrightarrow>
            \<exists>j. serialize_property rt k x = Inr (Some j) \<and> internalize rt k j = x"
  shows "\<exists>js. collect (map (\<lambda>p. serialize_property rt (string_of_nat (fst p)) (snd p))
                          (zip [0 ..< length xs] xs)) = Inr (map Some js)
              \<and> length js = length xs
              \<and> map (\<lambda>p. internalize rt (string_of_nat (fst p)) (snd p)) (zip [0 ..< length js] js) = xs"
proof -
  have "\<forall>i < length xs. \<exists>j. serialize_property rt (string_of_nat i) (xs ! i) = Inr (Some j)
          \<and> internalize rt (string_of_nat i) j = xs ! i"
    using assms plain_key_index by simp
  then obtain js where js: "length js = length xs"
      "\<forall>i < length xs. serialize_property rt (string_of_nat i) (xs ! i) = Inr (Some (js ! i))
          \<and> internalize rt (string_of_nat i) (js ! i) = xs ! i"
    using Skolem_list_nth[of "length xs"
        "\<lambda>i j. serialize_property rt (string_of_nat i) (xs ! i) = Inr (Some j)
          \<and> internalize rt (string_of_nat i) j = xs ! i"] by auto
  have "map (\<lambda>p. serialize_property rt (string_of_nat (fst p)) (snd p)) (zip [0 ..< length xs] xs)
        = map Inr (map Some js)"
    using js by (intro nth_equalityI) auto
  moreover have "map (\<lambda>p. internalize rt (string_of_nat (fst p)) (snd p)) (zip [0 ..< length js] js) = xs"
    using js by (intro nth_equalityI) auto
  ultimately show ?thesis using js(1) by (metis collect_map_Inr)
qed

lemma array_slot_Some: "map (array_slot \<circ> Some) js = js"
  by (induction js) (auto simp: array_slot_def)

lemma roundtrip_property:
  "valid_doc d \<Longrightarrow> plain_key k \<Longrightarrow>
     \<exists>j. serialize_property rt k d = Inr (Some j) \<and> internalize rt k j = d"
proof (induction d arbitrary: k rule: jsval_induct)
  case Undefined
  then show ?case by simp
next
  case Null
  then show ?case
    by (subst serialize_property.simps)
       (simp add: checkKey_plain toJSON_def reviver_def plain_key_not_date)
next
  case (Num n)
  then show ?case
    by (subst serialize_property.simps)
       (simp add: checkKey_plain toJSON_def reviver_def plain_key_not_date typeof_def)
next
  case (Str s)
  then show ?case
    by (subst serialize_property.simps)
       (simp add: checkKey_plain toJSON_def reviver_def plain_key_not_date typeof_def)
next
  case (Bool b)
  then show ?case
    by (subst serialize_property.simps)
       (simp add: checkKey_plain toJSON_def reviver_def plain_key_not_date typeof_def)
next
  case (Date t)
  then obtain n where n: "t = Some n" "\<bar>n\<bar> \<le> 8640000000000000"
    by (cases t) auto
  have "serialize_property rt k (Date t) = Inr (Some (JObj [(''$$date'', JNum n)]))"
    using Date n
    by (subst serialize_property.simps)
       (simp add: checkKey_plain toJSON_def checkKey_date_number)
  moreover have "internalize rt k (JObj [(''$$date'', JNum n)]) = Date t"
    using Date n
    by (simp add: reviver_def new_Date_def time_clip_def plain_key_not_date typeof_def
        truthy_def get_prop_def own_def)
  ultimately show ?case by blast
next
  case (Arr xs)
  have "\<And>x k. x \<in> set xs \<Longrightarrow> plain_key k \<Longrightarrow>
            \<exists>j. serialize_property rt k x = Inr (Some j) \<and> internalize rt k j = x"
    using Arr by (simp add: list_all_iff)
  then obtain js where js:
      "collect (map (\<lambda>p. serialize_property rt (string_of_nat (fst p)) (snd p))
                          (zip [0 ..< length xs] xs)) = Inr (map Some js)"
      "length js = length xs"
      "map (\<lambda>p. internalize rt (string_of_nat (fst p)) (snd p)) (zip [0 ..< length js] js) = xs"
    using roundtrip_elements[of xs rt] by blast
  have "serialize_property rt k (Arr xs) = Inr (Some (JArr js))"
    using Arr.prems js(1)
    by (subst serialize_property.simps) (simp add: checkKey_plain toJSON_def array_slot_Some)
  moreover have "internalize rt k (JArr js) = Arr xs"
    using Arr.prems js(3)
    by (simp add: reviver_def plain_key_not_date typeof_def truthy_def get_prop_def
        array_index_def is_digit_def digit_chars_def)
  ultimately show ?case by blast
next
  case (Obj kvs)
  have keys: "\<And>kv. kv \<in> set kvs \<Longrightarrow> plain_key (fst kv) \<and> valid_doc (snd kv)"
    using Obj.prems by (simp add: list_all_iff plain_key_def)
  then have "\<And>kv. kv \<in> set kvs \<Longrightarrow>
            \<exists>j. serialize_property rt (fst kv) (snd kv) = Inr (Some j) \<and> internalize rt (fst kv) j = snd kv"
    using Obj.IH by blast
  then obtain ms where ms:
      "collect (map (\<lambda>kv. case serialize_property rt (fst kv) (snd kv) of
                                   Inl e \<Rightarrow> Inl e | Inr j \<Rightarrow> Inr (fst kv, j)) kvs) = Inr ms"
      "map (\<lambda>m. (fst m, internalize rt (fst m) (snd m))) (members ms) = kvs"
    using roundtrip_entries[of kvs rt] by blast
  have "''$$date'' \<notin> fst ` set kvs"
    using keys plain_key_not_date by force
  then have nodate: "own kvs ''$$date'' = Undefined" by (rule own_absent)
  have "serialize_property rt k (Obj kvs) = Inr (Some (JObj (members ms)))"
    using Obj.prems ms(1)
    by (subst serialize_property.simps) (simp add: checkKey_plain toJSON_def)
  moreover have "internalize rt k (JObj (members ms)) = Obj kvs"
    using Obj.prems ms(2) nodate
    by (simp add: reviver_def plain_key_not_date typeof_def truthy_def get_prop_def)
  ultimately show ?case by blast
qed

text \<open>
  C1: every valid document serialises, and deserialising the line gives the document back,
  dates at any depth included.
\<close>

theorem deserialize_serialize:
  "valid_doc d \<Longrightarrow> \<exists>line. serialize rt d = Inr (Some line) \<and> deserialize rt line = d"
  unfolding serialize_def deserialize_def
  by (rule roundtrip_property) (simp_all add: plain_key_empty)

theorem deserialize_serialize_witness:
  "valid_doc (Obj [(''_id'', Str ''id1''), (''log'', Arr [Obj [(''at'', Date (Some 1500))], Null])])
   \<and> (\<exists>line.
        serialize bare_runtime
          (Obj [(''_id'', Str ''id1''), (''log'', Arr [Obj [(''at'', Date (Some 1500))], Null])])
          = Inr (Some line)
        \<and> deserialize bare_runtime line
          = Obj [(''_id'', Str ''id1''), (''log'', Arr [Obj [(''at'', Date (Some 1500))], Null])])"
proof -
  have v: "valid_doc (Obj [(''_id'', Str ''id1''), (''log'', Arr [Obj [(''at'', Date (Some 1500))], Null])])"
    by (simp add: starts_with_dollar_def contains_dot_def)
  from deserialize_serialize [OF v, of bare_runtime] v show ?thesis by blast
qed

section \<open>Storage: integrity of the datafile on open\<close>

text \<open>
  The file system is a map from paths to contents; a write succeeds, a rename succeeds
  when its source exists. The callbacks of the source are the sequence of the calls.
\<close>

type_synonym filesystem = "string \<Rightarrow> string option"

definition storage_exists :: "filesystem \<Rightarrow> string \<Rightarrow> bool" where
  "storage_exists fs path = (fs path \<noteq> None)"

definition storage_writeFile :: "filesystem \<Rightarrow> string \<Rightarrow> string \<Rightarrow> error option \<times> filesystem" where
  "storage_writeFile fs path data = (None, fs(path \<mapsto> data))"

definition storage_rename :: "filesystem \<Rightarrow> string \<Rightarrow> string \<Rightarrow> error option \<times> filesystem" where
  "storage_rename fs oldPath newPath =
     (case fs oldPath of
        None \<Rightarrow> (Some IoError, fs)
      | Some data \<Rightarrow> (None, (fs(oldPath := None))(newPath \<mapsto> data)))"

definition ensureDatafileIntegrity :: "filesystem \<Rightarrow> string \<Rightarrow> error option \<times> filesystem" where
  "ensureDatafileIntegrity fs filename =
     (let tempFilename = filename @ ''~'' in
      if storage_exists fs filename then (None, fs)
      else if \<not> storage_exists fs tempFilename then storage_writeFile fs filename []
      else storage_rename fs tempFilename filename)"

text \<open>
  C7: on open, when the datafile \<open>F\<close> exists the file system is left as it is; otherwise,
  when the temporary file \<open>F~\<close> exists it is renamed to \<open>F\<close>, which then holds its
  content while \<open>F~\<close> is gone; otherwise an empty \<open>F\<close> is created. No error is
  reported and \<open>F\<close> exists afterwards.
\<close>

theorem ensureDatafileIntegrity_cases:
  "ensureDatafileIntegrity fs F =
     (None,
      if fs F \<noteq> None then fs
      else case fs (F @ ''~'') of
             Some content \<Rightarrow> (fs(F @ ''~'' := None))(F \<mapsto> content)
           | None \<Rightarrow> fs(F \<mapsto> []))
   \<and> snd (ensureDatafileIntegrity fs F) F \<noteq> None"
  by (auto simp: ensureDatafileIntegrity_def storage_exists_def storage_writeFile_def
      storage_rename_def Let_def split: option.splits)


section \<open>The query matcher\<close>

definition isPrimitiveType :: "jsval \<Rightarrow> bool" where
  "isPrimitiveType obj =
     (typeof obj = ''boolean'' \<or> typeof obj = ''number'' \<or> typeof obj = ''string'' \<or>
      obj = Null \<or> isDate obj \<or> isArray obj)"

fun any_true :: "(error + bool) list \<Rightarrow> error + bool" where
  "any_true [] = Inr False"
| "any_true (Inl e # rs) = Inl e"
| "any_true (Inr b # rs) = (if b then Inr True else any_true rs)"

definition negate :: "error + bool \<Rightarrow> error + bool" where
  "negate r = and_then r (\<lambda>b. Inr (\<not> b))"

definition comparison_ne :: "jsval \<Rightarrow> jsval \<Rightarrow> error + bool" where
  "comparison_ne a b =
     (if a = Undefined then Inr True
      else case a of
          Arr xs \<Rightarrow> if \<not> isArray b then negate (any_true (map (\<lambda>el. areThingsEqual el b) xs))
                    else negate (areThingsEqual a b)
        | _ \<Rightarrow> negate (areThingsEqual a b))"

definition comparison_eq :: "jsval \<Rightarrow> jsval \<Rightarrow> error + bool" where
  "comparison_eq a b = areThingsEqual a b"

definition comparison_in :: "jsval \<Rightarrow> jsval \<Rightarrow> error + bool" where
  "comparison_in a b = (case b of
      Arr xs \<Rightarrow> any_true (map (\<lambda>el. areThingsEqual a el) xs)
    | _ \<Rightarrow> Inl NonArrayOperand)"

definition comparison_nin :: "jsval \<Rightarrow> jsval \<Rightarrow> error + bool" where
  "comparison_nin a b = (if \<not> isArray b then Inl NonArrayOperand else negate (comparison_in a b))"

text \<open>The test of a regular expression object on the value of the document.\<close>

definition regex_test :: "(string \<Rightarrow> bool) \<Rightarrow> jsval \<Rightarrow> bool" where
  "regex_test re a = (case a of Str s \<Rightarrow> re s | _ \<Rightarrow> False)"

definition comparison_regex :: "runtime \<Rightarrow> jsval \<Rightarrow> jsval \<Rightarrow> error + bool" where
  "comparison_regex rt a b =
     (if typeof b \<noteq> ''string'' then Inl BadRegex
      else case new_RegExp rt b Undefined of
             Inl e \<Rightarrow> Inl BadRegex
           | Inr re \<Rightarrow> Inr (regex_test re a))"

definition comparison_exists :: "jsval \<Rightarrow> jsval \<Rightarrow> error + bool" where
  "comparison_exists v ex =
     (let exists = (truthy ex \<or> ex = Str []) in
      if v = Undefined then Inr (\<not> exists) else Inr exists)"

definition comparison_size :: "runtime \<Rightarrow> jsval \<Rightarrow> jsval \<Rightarrow> error + bool" where
  "comparison_size rt obj v = (case obj of
      Arr xs \<Rightarrow>
        and_then (to_primitive rt v) (\<lambda>p.
          if to_number rt p = None then Inl BadSize
          else Inr (v = Num (int (length xs))))
    | _ \<Rightarrow> Inr False)"

text \<open>The comparison functions that do not call the matcher; \<open>None\<close> for any other key.\<close>

definition comparisonFunctions :: "runtime \<Rightarrow> string \<Rightarrow> (jsval \<Rightarrow> jsval \<Rightarrow> error + bool) option" where
  "comparisonFunctions rt key =
     (if key = ''$lt'' then Some (comparison_lt rt)
      else if key = ''$lte'' then Some (comparison_lte rt)
      else if key = ''$gt'' then Some (comparison_gt rt)
      else if key = ''$gte'' then Some (comparison_gte rt)
      else if key = ''$ne'' then Some comparison_ne
      else if key = ''$eq'' then Some comparison_eq
      else if key = ''$in'' then Some comparison_in
      else if key = ''$nin'' then Some comparison_nin
      else if key = ''$regex'' then Some (comparison_regex rt)
      else if key = ''$exists'' then Some comparison_exists
      else if key = ''$size'' then Some (comparison_size rt)
      else None)"

definition logical_where :: "runtime \<Rightarrow> jsval \<Rightarrow> jsval \<Rightarrow> error + bool" where
  "logical_where rt obj fn = (case fn of
      Str src \<Rightarrow>
        (case new_Function rt src of
           None \<Rightarrow> Inl BadWhere
         | Some f \<Rightarrow>
             and_then (f obj) (\<lambda>result.
               if result \<noteq> Undefined \<and> typeof result \<noteq> ''boolean'' then Inl BadWhere
               else Inr (truthy result)))
    | _ \<Rightarrow> Inl BadWhere)"

text \<open>
  \<open>arrayComparisonFunctions [key]\<close> is truthy for the three array operators and, the table
  being a plain object, for every property name of \<open>Object.prototype\<close>.
\<close>

definition object_prototype_names :: "string list" where
  "object_prototype_names =
     [''constructor'', ''toString'', ''toLocaleString'', ''valueOf'', ''hasOwnProperty'',
      ''isPrototypeOf'', ''propertyIsEnumerable'', ''__proto__'', ''__defineGetter__'',
      ''__defineSetter__'', ''__lookupGetter__'', ''__lookupSetter__'']"

definition arrayComparisonFunctions :: "string \<Rightarrow> bool" where
  "arrayComparisonFunctions key =
     (key \<in> set [''$size'', ''$elemMatch'', ''$ne''] \<or> key \<in> set object_prototype_names)"

definition has_array_operator :: "jsval \<Rightarrow> bool" where
  "has_array_operator queryValue = (case queryValue of
      Obj kvs \<Rightarrow> list_ex (\<lambda>kv. arrayComparisonFunctions (fst kv)) kvs
    | _ \<Rightarrow> False)"

definition array_elements :: "jsval \<Rightarrow> jsval list" where
  "array_elements v = (case v of Arr xs \<Rightarrow> xs | _ \<Rightarrow> [])"

definition own_entries :: "jsval \<Rightarrow> (string \<times> jsval) list" where
  "own_entries v = (case v of Obj kvs \<Rightarrow> kvs | _ \<Rightarrow> [])"

text \<open>Whether the matcher takes the detour through \<open>{ needAKey: obj }\<close>.\<close>

definition primitive_query :: "jsval \<Rightarrow> jsval \<Rightarrow> error + bool" where
  "primitive_query obj query =
     (if isPrimitiveType obj \<or> isPrimitiveType query then Inr True
      else and_then (isMongoId obj) (\<lambda>a. if a then Inr True else isMongoId query))"

function match :: "runtime \<Rightarrow> jsval \<Rightarrow> jsval \<Rightarrow> error + bool"
  and matchQueryPart :: "runtime \<Rightarrow> jsval \<Rightarrow> string \<Rightarrow> jsval \<Rightarrow> bool \<Rightarrow> error + bool"
where
  "match rt obj query =
     (case primitive_query obj query of
        Inl e \<Rightarrow> Inl e
      | Inr True \<Rightarrow> matchQueryPart rt (Obj [(''needAKey'', obj)]) ''needAKey'' query False
      | Inr False \<Rightarrow>
          all_true (map (\<lambda>kv.
              if starts_with_dollar (fst kv) then
                (if fst kv = ''$or'' then
                   (if \<not> isArray (snd kv) then Inl NonArrayOperand
                    else any_true (map (\<lambda>q. match rt obj q) (array_elements (snd kv))))
                 else if fst kv = ''$and'' then
                   (if \<not> isArray (snd kv) then Inl NonArrayOperand
                    else all_true (map (\<lambda>q. match rt obj q) (array_elements (snd kv))))
                 else if fst kv = ''$not'' then negate (match rt obj (snd kv))
                 else if fst kv = ''$where'' then logical_where rt obj (snd kv)
                 else Inl UnknownOperator)
              else matchQueryPart rt obj (fst kv) (snd kv) False)
            (own_entries query)))"
| "matchQueryPart rt obj queryKey queryValue treatObjAsValue =
     (if isArray (getDotValue_field obj queryKey) \<and> \<not> treatObjAsValue then
        (if isArray queryValue then matchQueryPart rt obj queryKey queryValue True
         else if queryValue = Null \<or> queryValue = Undefined then Inl TypeError
         else if get_prop queryValue ''$eq'' \<noteq> Undefined
           then matchQueryPart rt obj queryKey queryValue True
         else if has_array_operator queryValue
           then matchQueryPart rt obj queryKey queryValue True
         else any_true (map (\<lambda>el. matchQueryPart rt (Obj [(''k'', el)]) ''k'' queryValue False)
                          (array_elements (getDotValue_field obj queryKey))))
      else if typeof queryValue = ''object'' \<and> queryValue \<noteq> Null \<and> \<not> isArray queryValue \<and>
              ''$regex'' \<in> fst ` set (own_entries queryValue) \<and>
              ''$options'' \<in> fst ` set (own_entries queryValue) then
        (case new_RegExp rt (get_prop queryValue ''$regex'') (get_prop queryValue ''$options'') of
           Inl e \<Rightarrow> Inl e
         | Inr re \<Rightarrow> Inr (regex_test re (getDotValue_field obj queryKey)))
      else if typeof queryValue = ''object'' \<and> queryValue \<noteq> Null \<and> \<not> isArray queryValue \<and>
              filter starts_with_dollar (map fst (own_entries queryValue)) \<noteq> [] \<and>
              length (filter starts_with_dollar (map fst (own_entries queryValue)))
                \<noteq> length (own_entries queryValue) then Inl MixedQuery
      else if typeof queryValue = ''object'' \<and> queryValue \<noteq> Null \<and> \<not> isArray queryValue \<and>
              filter starts_with_dollar (map fst (own_entries queryValue)) \<noteq> [] then
        all_true (map (\<lambda>kv.
            if fst kv = ''$elemMatch'' then
              (if \<not> isArray (getDotValue_field obj queryKey) then Inr False
               else any_true (map (\<lambda>el. match rt el (snd kv))
                                (array_elements (getDotValue_field obj queryKey))))
            else case comparisonFunctions rt (fst kv) of
                None \<Rightarrow> Inl UnknownOperator
              | Some f \<Rightarrow> f (getDotValue_field obj queryKey) (snd kv))
          (own_entries queryValue))
      else if getDotValue_field obj queryKey = Undefined \<and> queryValue = Null then Inr True
      else areThingsEqual (getDotValue_field obj queryKey) queryValue)"
  by pat_completeness auto


lemma size_array_element: "x \<in> set (array_elements v) \<Longrightarrow> size x < size v"
  by (cases v) (auto simp: array_elements_def dest: size_list_member[of _ _ size])

lemma size_own_entry: "kv \<in> set (own_entries v) \<Longrightarrow> size (snd kv) < size v"
  by (cases v; cases kv) (auto simp: own_entries_def dest: size_entry_less)

lemma getDotValue_field_single:
  "\<not> contains_dot k \<Longrightarrow> getDotValue_field (Obj [(k, v)]) k = v"
proof -
  assume "\<not> contains_dot k"
  then have "split_dot k = [k]"
    by (induction k) (auto simp: contains_dot_def)
  then show ?thesis by (simp add: getDotValue_field_def truthy_def get_prop_def own_def)
qed

lemma getDotValue_needAKey [simp]: "getDotValue_field (Obj [(''needAKey'', v)]) ''needAKey'' = v"
  by (rule getDotValue_field_single) (simp add: contains_dot_def)

lemma getDotValue_k [simp]: "getDotValue_field (Obj [(''k'', v)]) ''k'' = v"
  by (rule getDotValue_field_single) (simp add: contains_dot_def)

termination match
proof (relation "inv_image (less_than <*lex*> less_than <*lex*> less_than)
    (\<lambda>x. case x of
        Inl (rt, obj, query) \<Rightarrow> (size query, size obj, 2::nat)
      | Inr (rt, obj, key, qv, treat) \<Rightarrow>
          (size qv, size (getDotValue_field obj key), if treat then 0 else 1))", goal_cases)
  case 1
  show ?case by (intro wf_inv_image wf_lex_prod wf_less_than)
next
  case (2 rt obj query)
  show ?case by simp
next
  case (3 rt obj query x2 kv q)
  then show ?case using size_array_element[of q "snd kv"] size_own_entry[of kv query] by simp
next
  case (4 rt obj query x2 kv q)
  then show ?case using size_array_element[of q "snd kv"] size_own_entry[of kv query] by simp
next
  case (5 rt obj query x2 kv)
  then show ?case using size_own_entry[of kv query] by simp
next
  case (6 rt obj query x2 kv)
  then show ?case using size_own_entry[of kv query] by simp
next
  case (7 rt obj queryKey queryValue treatObjAsValue)
  then show ?case by simp
next
  case (8 rt obj queryKey queryValue treatObjAsValue)
  then show ?case by simp
next
  case (9 rt obj queryKey queryValue treatObjAsValue)
  then show ?case by simp
next
  case (10 rt obj queryKey queryValue treatObjAsValue el)
  then show ?case using size_array_element[of el "getDotValue_field obj queryKey"] by simp
next
  case (11 rt obj queryKey queryValue treatObjAsValue kv el)
  then show ?case using size_own_entry[of kv queryValue] by simp
qed

declare match.simps [simp del] matchQueryPart.simps [simp del]


section \<open>Objects with identity: the heap\<close>

type_synonym addr = nat

datatype hval =
    VUndefined | VNull | VNum int | VStr string | VBool bool
  | VDate nat "int option"
  | VRef addr

datatype cell = CArr "hval list" | CObj "(string \<times> hval) list"

type_synonym heap = "cell list"

type_synonym 'a hm = "heap \<Rightarrow> (error + 'a) \<times> heap"

definition hreturn :: "'a \<Rightarrow> 'a hm" where
  "hreturn x = (\<lambda>h. (Inr x, h))"

definition hthrow :: "error \<Rightarrow> 'a hm" where
  "hthrow e = (\<lambda>h. (Inl e, h))"

definition hbind :: "'a hm \<Rightarrow> ('a \<Rightarrow> 'b hm) \<Rightarrow> 'b hm" where
  "hbind m f = (\<lambda>h. case m h of (Inl e, h') \<Rightarrow> (Inl e, h') | (Inr x, h') \<Rightarrow> f x h')"

definition hlift :: "error + 'a \<Rightarrow> 'a hm" where
  "hlift r = (\<lambda>h. (r, h))"

definition halloc :: "cell \<Rightarrow> hval hm" where
  "halloc c = (\<lambda>h. (Inr (VRef (length h)), h @ [c]))"

definition hread :: "addr \<Rightarrow> cell hm" where
  "hread a = (\<lambda>h. if a < length h then (Inr (h ! a), h) else (Inl Dangling, h))"

definition hwrite :: "addr \<Rightarrow> cell \<Rightarrow> unit hm" where
  "hwrite a c = (\<lambda>h. if a < length h then (Inr (), h[a := c]) else (Inl Dangling, h))"

fun hforEach :: "'a list \<Rightarrow> ('a \<Rightarrow> unit hm) \<Rightarrow> unit hm" where
  "hforEach [] f = hreturn ()"
| "hforEach (x # xs) f = hbind (f x) (\<lambda>u. hforEach xs f)"

fun hmap :: "'a list \<Rightarrow> ('a \<Rightarrow> 'b hm) \<Rightarrow> 'b list hm" where
  "hmap [] f = hreturn []"
| "hmap (x # xs) f = hbind (f x) (\<lambda>y. hbind (hmap xs f) (\<lambda>ys. hreturn (y # ys)))"

subsection \<open>The value a reference unfolds to\<close>

fun these :: "'a option list \<Rightarrow> 'a list option" where
  "these [] = Some []"
| "these (None # xs) = None"
| "these (Some x # xs) = (case these xs of None \<Rightarrow> None | Some ys \<Rightarrow> Some (x # ys))"

fun reify :: "nat \<Rightarrow> heap \<Rightarrow> hval \<Rightarrow> jsval option" where
  "reify n h VUndefined = Some Undefined"
| "reify n h VNull = Some Null"
| "reify n h (VNum x) = Some (Num x)"
| "reify n h (VStr s) = Some (Str s)"
| "reify n h (VBool b) = Some (Bool b)"
| "reify n h (VDate i t) = Some (Date t)"
| "reify 0 h (VRef a) = None"
| "reify (Suc n) h (VRef a) =
     (if a < length h then
        (case h ! a of
           CArr xs \<Rightarrow> map_option Arr (these (map (reify n h) xs))
         | CObj kvs \<Rightarrow>
             map_option Obj (these (map (\<lambda>kv. map_option (Pair (fst kv)) (reify n h (snd kv))) kvs)))
      else None)"

definition hreify :: "hval \<Rightarrow> jsval hm" where
  "hreify v = (\<lambda>h. case reify (length h) h v of
                      None \<Rightarrow> (Inl RangeError, h)
                    | Some t \<Rightarrow> (Inr t, h))"

subsection \<open>Properties of a value\<close>

definition htypeof :: "hval \<Rightarrow> string" where
  "htypeof v = (case v of
      VUndefined \<Rightarrow> ''undefined''
    | VNum n \<Rightarrow> ''number''
    | VStr s \<Rightarrow> ''string''
    | VBool b \<Rightarrow> ''boolean''
    | _ \<Rightarrow> ''object'')"

definition htruthy :: "hval \<Rightarrow> bool" where
  "htruthy v = (case v of
      VUndefined \<Rightarrow> False
    | VNull \<Rightarrow> False
    | VNum n \<Rightarrow> n \<noteq> 0
    | VStr s \<Rightarrow> s \<noteq> []
    | VBool b \<Rightarrow> b
    | _ \<Rightarrow> True)"

definition hown :: "(string \<times> hval) list \<Rightarrow> string \<Rightarrow> hval" where
  "hown kvs k = (case map_of kvs k of None \<Rightarrow> VUndefined | Some v \<Rightarrow> v)"

definition hnth :: "hval list \<Rightarrow> int \<Rightarrow> hval" where
  "hnth xs i = (if 0 \<le> i \<and> i < int (length xs) then xs ! nat i else VUndefined)"

definition cell_get :: "cell \<Rightarrow> string \<Rightarrow> hval" where
  "cell_get c k = (case c of
      CObj kvs \<Rightarrow> hown kvs k
    | CArr xs \<Rightarrow>
        (if k = ''length'' then VNum (int (length xs))
         else case array_index k of None \<Rightarrow> VUndefined | Some i \<Rightarrow> hnth xs (int i)))"

definition hget :: "hval \<Rightarrow> string \<Rightarrow> hval hm" where
  "hget v k = (case v of
      VUndefined \<Rightarrow> hthrow TypeError
    | VNull \<Rightarrow> hthrow TypeError
    | VRef a \<Rightarrow> hbind (hread a) (\<lambda>c. hreturn (cell_get c k))
    | VStr s \<Rightarrow>
        hreturn (if k = ''length'' then VNum (int (length s))
                 else case array_index k of
                        None \<Rightarrow> VUndefined
                      | Some i \<Rightarrow> if i < length s then VStr [s ! i] else VUndefined)
    | _ \<Rightarrow> hreturn VUndefined)"

text \<open>
  The own enumerable properties of an object are listed with the index keys first, in
  ascending order, then the other keys in the order of their creation.
\<close>

fun insert_index_key :: "nat \<Rightarrow> string \<Rightarrow> hval \<Rightarrow> (string \<times> hval) list \<Rightarrow> (string \<times> hval) list" where
  "insert_index_key i k x [] = [(k, x)]"
| "insert_index_key i k x (kv # kvs) =
     (case array_index (fst kv) of
        Some j \<Rightarrow> if j < i then kv # insert_index_key i k x kvs else (k, x) # kv # kvs
      | None \<Rightarrow> (k, x) # kv # kvs)"

definition put_property :: "(string \<times> hval) list \<Rightarrow> string \<Rightarrow> hval \<Rightarrow> (string \<times> hval) list" where
  "put_property kvs k x =
     (if k \<in> fst ` set kvs then map (\<lambda>kv. if fst kv = k then (k, x) else kv) kvs
      else case array_index k of
             None \<Rightarrow> kvs @ [(k, x)]
           | Some i \<Rightarrow> insert_index_key i k x kvs)"

definition hset :: "hval \<Rightarrow> string \<Rightarrow> hval \<Rightarrow> unit hm" where
  "hset v k x = (case v of
      VUndefined \<Rightarrow> hthrow TypeError
    | VNull \<Rightarrow> hthrow TypeError
    | VRef a \<Rightarrow>
        hbind (hread a) (\<lambda>c. case c of
            CObj kvs \<Rightarrow> hwrite a (CObj (put_property kvs k x))
          | CArr xs \<Rightarrow>
              (case array_index k of
                 None \<Rightarrow> hthrow Unmodelled
               | Some i \<Rightarrow>
                   if i < length xs then hwrite a (CArr (xs[i := x]))
                   else hwrite a (CArr (xs @ replicate (i - length xs) VUndefined @ [x]))))
    | _ \<Rightarrow> hreturn ())"

definition hdelete :: "hval \<Rightarrow> string \<Rightarrow> unit hm" where
  "hdelete v k = (case v of
      VUndefined \<Rightarrow> hthrow TypeError
    | VNull \<Rightarrow> hthrow TypeError
    | VRef a \<Rightarrow>
        hbind (hread a) (\<lambda>c. case c of
            CObj kvs \<Rightarrow> hwrite a (CObj (filter (\<lambda>kv. fst kv \<noteq> k) kvs))
          | CArr xs \<Rightarrow>
              (case array_index k of
                 None \<Rightarrow> hreturn ()
               | Some i \<Rightarrow> if i < length xs then hwrite a (CArr (xs[i := VUndefined]))
                           else hreturn ()))
    | _ \<Rightarrow> hreturn ())"

definition cell_keys :: "cell \<Rightarrow> string list" where
  "cell_keys c = (case c of
      CObj kvs \<Rightarrow> map fst kvs
    | CArr xs \<Rightarrow> map string_of_nat [0 ..< length xs])"

definition hkeys :: "hval \<Rightarrow> string list hm" where
  "hkeys v = (case v of
      VUndefined \<Rightarrow> hthrow TypeError
    | VNull \<Rightarrow> hthrow TypeError
    | VRef a \<Rightarrow> hbind (hread a) (\<lambda>c. hreturn (cell_keys c))
    | VStr s \<Rightarrow> hreturn (map string_of_nat [0 ..< length s])
    | _ \<Rightarrow> hreturn [])"

definition hasOwnProperty :: "hval \<Rightarrow> string \<Rightarrow> bool hm" where
  "hasOwnProperty v k = (case v of
      VUndefined \<Rightarrow> hthrow TypeError
    | VNull \<Rightarrow> hthrow TypeError
    | VRef a \<Rightarrow> hbind (hread a) (\<lambda>c. hreturn (k = ''length'' \<and> (case c of CArr xs \<Rightarrow> True | _ \<Rightarrow> False)
                                                \<or> k \<in> set (cell_keys c)))
    | VStr s \<Rightarrow> hreturn (k = ''length'' \<or> k \<in> set (map string_of_nat [0 ..< length s]))
    | _ \<Rightarrow> hreturn False)"

text \<open>\<open>Array.isArray\<close>, with the elements.\<close>

definition harray :: "hval \<Rightarrow> hval list option hm" where
  "harray v = (case v of
      VRef a \<Rightarrow> hbind (hread a) (\<lambda>c. hreturn (case c of CArr xs \<Rightarrow> Some xs | _ \<Rightarrow> None))
    | _ \<Rightarrow> hreturn None)"

subsection \<open>deepCopy\<close>

fun deepCopy :: "nat \<Rightarrow> bool \<Rightarrow> hval \<Rightarrow> hval hm" where
  "deepCopy n strictKeys VUndefined = hreturn VUndefined"
| "deepCopy n strictKeys VNull = hreturn VNull"
| "deepCopy n strictKeys (VNum x) = hreturn (VNum x)"
| "deepCopy n strictKeys (VStr s) = hreturn (VStr s)"
| "deepCopy n strictKeys (VBool b) = hreturn (VBool b)"
| "deepCopy n strictKeys (VDate i t) = hreturn (VDate i t)"
| "deepCopy 0 strictKeys (VRef a) = hthrow RangeError"
| "deepCopy (Suc n) strictKeys (VRef a) =
     hbind (hread a) (\<lambda>c. case c of
         CArr xs \<Rightarrow> hbind (hmap xs (deepCopy n strictKeys)) (\<lambda>ys. halloc (CArr ys))
       | CObj kvs \<Rightarrow>
           if hown kvs ''_bsontype'' = VStr ''ObjectID'' then hreturn (VRef a)
           else hbind (hmap (filter (\<lambda>kv. \<not> strictKeys \<or>
                                           (\<not> starts_with_dollar (fst kv) \<and> \<not> contains_dot (fst kv))) kvs)
                        (\<lambda>kv. hbind (deepCopy n strictKeys (snd kv)) (\<lambda>y. hreturn (fst kv, y))))
                  (\<lambda>kvs'. halloc (CObj kvs')))"

definition deepCopy_value :: "hval \<Rightarrow> hval hm" where
  "deepCopy_value v = (\<lambda>h. deepCopy (length h) False v h)"


subsection \<open>A region of the heap that a computation leaves alone\<close>

definition cell_vals :: "cell \<Rightarrow> hval set" where
  "cell_vals c = (case c of CArr xs \<Rightarrow> set xs | CObj kvs \<Rightarrow> snd ` set kvs)"

definition outside :: "addr set \<Rightarrow> hval \<Rightarrow> bool" where
  "outside P v = (case v of VRef a \<Rightarrow> a \<notin> P | _ \<Rightarrow> True)"

definition sealed :: "addr set \<Rightarrow> heap \<Rightarrow> bool" where
  "sealed P h = ((\<forall>a \<in> P. a < length h) \<and>
              (\<forall>a < length h. a \<notin> P \<longrightarrow> (\<forall>v \<in> cell_vals (h ! a). outside P v)))"

definition keeps :: "addr set \<Rightarrow> heap \<Rightarrow> heap \<Rightarrow> bool" where
  "keeps P h h' = (length h \<le> length h' \<and> (\<forall>a \<in> P. h' ! a = h ! a))"

definition preserves :: "addr set \<Rightarrow> 'a hm \<Rightarrow> ('a \<Rightarrow> bool) \<Rightarrow> bool" where
  "preserves P m R =
     (\<forall>h. sealed P h \<longrightarrow> (case m h of (r, h') \<Rightarrow> sealed P h' \<and> keeps P h h' \<and> (\<forall>x. r = Inr x \<longrightarrow> R x)))"

lemma keeps_refl: "keeps P h h"
  by (simp add: keeps_def)

lemma keeps_trans: "keeps P h h1 \<Longrightarrow> keeps P h1 h2 \<Longrightarrow> keeps P h h2"
  by (auto simp: keeps_def)

lemma preservesD:
  "preserves P m R \<Longrightarrow> sealed P h \<Longrightarrow> m h = (r, h') \<Longrightarrow>
     sealed P h' \<and> keeps P h h' \<and> (\<forall>x. r = Inr x \<longrightarrow> R x)"
  by (auto simp: preserves_def)

lemma preserves_return: "R x \<Longrightarrow> preserves P (hreturn x) R"
  by (simp add: preserves_def hreturn_def keeps_refl)

lemma preserves_throw: "preserves P (hthrow e) R"
  by (simp add: preserves_def hthrow_def keeps_refl)

lemma preserves_lift: "(\<And>x. r = Inr x \<Longrightarrow> R x) \<Longrightarrow> preserves P (hlift r) R"
  by (simp add: preserves_def hlift_def keeps_refl)

lemma preserves_bind:
  assumes "preserves P m Q" "\<And>x. Q x \<Longrightarrow> preserves P (f x) R"
  shows "preserves P (hbind m f) R"
  unfolding preserves_def
proof (intro allI impI)
  fix h assume h: "sealed P h"
  obtain r h1 where m: "m h = (r, h1)" by (cases "m h")
  from preservesD[OF assms(1) h m] have 1: "sealed P h1" "keeps P h h1" "\<And>x. r = Inr x \<Longrightarrow> Q x"
    by auto
  show "case hbind m f h of (r, h') \<Rightarrow> sealed P h' \<and> keeps P h h' \<and> (\<forall>x. r = Inr x \<longrightarrow> R x)"
  proof (cases r)
    case (Inl e)
    then show ?thesis using m 1 by (simp add: hbind_def)
  next
    case (Inr x)
    obtain r2 h2 where f: "f x h1 = (r2, h2)" by (cases "f x h1")
    from preservesD[OF assms(2)[OF 1(3)[OF Inr]] 1(1) f] 1(2)
    show ?thesis using m Inr f by (auto simp: hbind_def intro: keeps_trans)
  qed
qed

lemma preserves_weaken: "preserves P m Q \<Longrightarrow> (\<And>x. Q x \<Longrightarrow> R x) \<Longrightarrow> preserves P m R"
  by (fastforce simp: preserves_def)

lemma preserves_read: "preserves P (hread a) (\<lambda>c. a \<notin> P \<longrightarrow> (\<forall>v \<in> cell_vals c. outside P v))"
  by (auto simp: preserves_def hread_def keeps_refl sealed_def)

lemma preserves_alloc:
  assumes "\<And>v. v \<in> cell_vals c \<Longrightarrow> outside P v"
  shows "preserves P (halloc c) (outside P)"
  unfolding preserves_def halloc_def
proof (intro allI impI, simp, intro conjI)
  fix h assume h: "sealed P h"
  show "sealed P (h @ [c])"
    unfolding sealed_def
  proof (intro conjI ballI allI impI)
    fix a assume "a \<in> P" then show "a < length (h @ [c])" using h by (auto simp: sealed_def)
  next
    fix a v assume a: "a < length (h @ [c])" "a \<notin> P" "v \<in> cell_vals ((h @ [c]) ! a)"
    show "outside P v"
    proof (cases "a < length h")
      case True
      then show ?thesis using a h by (auto simp: sealed_def nth_append)
    next
      case False
      then have "a = length h" using a by simp
      then show ?thesis using a assms by simp
    qed
  qed
  show "keeps P h (h @ [c])" using h by (auto simp: keeps_def sealed_def nth_append)
  show "outside P (VRef (length h))" using h by (auto simp: outside_def sealed_def)
qed

lemma preserves_write:
  assumes "a \<notin> P" "\<And>v. v \<in> cell_vals c \<Longrightarrow> outside P v"
  shows "preserves P (hwrite a c) (\<lambda>u. True)"
  unfolding preserves_def hwrite_def
proof (intro allI impI)
  fix h assume h: "sealed P h"
  show "case if a < length h then (Inr (), h[a := c]) else (Inl Dangling, h) of
          (r, h') \<Rightarrow> sealed P h' \<and> keeps P h h' \<and> (\<forall>x. r = Inr x \<longrightarrow> True)"
  proof (cases "a < length h")
    case False
    then show ?thesis using h by (simp add: keeps_refl)
  next
    case True
    have "sealed P (h[a := c])"
      unfolding sealed_def
    proof (intro conjI ballI allI impI)
      fix b assume "b \<in> P" then show "b < length (h[a := c])" using h by (auto simp: sealed_def)
    next
      fix b v assume b: "b < length (h[a := c])" "b \<notin> P" "v \<in> cell_vals (h[a := c] ! b)"
      show "outside P v"
      proof (cases "b = a")
        case True
        then show ?thesis using b assms(2) by simp
      next
        case False
        then show ?thesis using b h by (auto simp: sealed_def)
      qed
    qed
    moreover have "keeps P h (h[a := c])"
    proof -
      have "h[a := c] ! b = h ! b" if "b \<in> P" for b
        using that assms(1) by (intro nth_list_update_neq) auto
      then show ?thesis by (simp add: keeps_def)
    qed
    ultimately show ?thesis using True by simp
  qed
qed

lemma preserves_forEach:
  assumes "\<And>x. x \<in> set xs \<Longrightarrow> preserves P (f x) (\<lambda>u. True)"
  shows "preserves P (hforEach xs f) (\<lambda>u. True)"
  using assms
proof (induction xs)
  case Nil
  then show ?case by (simp add: preserves_return)
next
  case (Cons x xs)
  have "preserves P (f x) (\<lambda>u. True)" using Cons.prems by simp
  moreover have "preserves P (hforEach xs f) (\<lambda>u. True)" using Cons by simp
  ultimately show ?case by (simp add: preserves_bind)
qed

lemma preserves_map:
  assumes "\<And>x. x \<in> set xs \<Longrightarrow> preserves P (f x) R"
  shows "preserves P (hmap xs f) (\<lambda>ys. \<forall>y \<in> set ys. R y)"
  using assms
proof (induction xs)
  case Nil
  then show ?case by (simp add: preserves_return)
next
  case (Cons x xs)
  show ?case
    apply simp
    apply (rule preserves_bind[where Q=R])
     apply (simp add: Cons.prems)
    apply (rule preserves_bind[where Q="\<lambda>ys. \<forall>y \<in> set ys. R y"])
     apply (simp add: Cons)
    apply (rule preserves_return)
    apply simp
    done
qed


section \<open>The modifiers\<close>

text \<open>
  A last-step modifier receives the object \<open>obj\<close> that holds the field, the name of the
  field and the operand, and changes \<open>obj\<close>, or the array in the field, in place.
\<close>

definition is_object :: "hval \<Rightarrow> bool" where
  "is_object v = (v \<noteq> VNull \<and> htypeof v = ''object'')"

definition harray_push :: "hval \<Rightarrow> hval \<Rightarrow> unit hm" where
  "harray_push arr x = (case arr of
      VRef a \<Rightarrow> hbind (hread a) (\<lambda>c. case c of
                   CArr xs \<Rightarrow> hwrite a (CArr (xs @ [x]))
                 | _ \<Rightarrow> hthrow TypeError)
    | _ \<Rightarrow> hthrow TypeError)"

text \<open>\<open>if (!hasOwnProperty (obj, field)) obj[field] = []\<close>, then the test that the field
  holds an array, with its error.\<close>

definition ensure_array_field :: "hval \<Rightarrow> string \<Rightarrow> hval hm" where
  "ensure_array_field obj field =
     hbind (hasOwnProperty obj field) (\<lambda>has.
     hbind (if has then hreturn () else hbind (halloc (CArr [])) (\<lambda>a. hset obj field a)) (\<lambda>u.
     hbind (hget obj field) (\<lambda>cur.
     hbind (harray cur) (\<lambda>xs.
       if xs = None then hthrow NotAnArray else hreturn cur))))"

definition lastStep_set :: "hval \<Rightarrow> string \<Rightarrow> hval \<Rightarrow> unit hm" where
  "lastStep_set obj field v = hset obj field v"

definition lastStep_unset :: "hval \<Rightarrow> string \<Rightarrow> hval \<Rightarrow> unit hm" where
  "lastStep_unset obj field v = hdelete obj field"

definition slice_bounds :: "int \<Rightarrow> int \<Rightarrow> nat \<times> nat" where
  "slice_bounds n s =
     (if s < 0 then (nat (max 0 (n + s)), nat n) else (0, nat (min n s)))"

definition lastStep_push :: "hval \<Rightarrow> string \<Rightarrow> hval \<Rightarrow> unit hm" where
  "lastStep_push obj field v =
     hbind (ensure_array_field obj field) (\<lambda>arr.
     hbind (if is_object v then
              hbind (hget v ''$slice'') (\<lambda>sl.
              hbind (hget v ''$each'') (\<lambda>ea.
                if htruthy sl \<and> ea = VUndefined
                then hbind (halloc (CArr [])) (\<lambda>a. hset v ''$each'' a)
                else hreturn ()))
            else hreturn ()) (\<lambda>u.
     hbind (if is_object v then hget v ''$each'' else hreturn VUndefined) (\<lambda>each.
       if is_object v \<and> htruthy each then
         hbind (hkeys v) (\<lambda>ks.
         hbind (hget v ''$slice'') (\<lambda>sl.
           if length ks \<ge> 3 \<or> (length ks = 2 \<and> sl = VUndefined) then hthrow BadEach
           else
             hbind (harray each) (\<lambda>es. case es of
                 None \<Rightarrow> hthrow BadEach
               | Some vs \<Rightarrow>
                   hbind (hforEach vs (\<lambda>x. hbind (hget obj field) (\<lambda>cur. harray_push cur x))) (\<lambda>u.
                     case sl of
                       VNum s \<Rightarrow>
                         if s = 0 then hbind (halloc (CArr [])) (\<lambda>a. hset obj field a)
                         else
                           hbind (hget obj field) (\<lambda>cur.
                           hbind (harray cur) (\<lambda>xs. case xs of
                               None \<Rightarrow> hthrow TypeError
                             | Some ys \<Rightarrow>
                                 hbind (halloc (CArr (take (snd (slice_bounds (int (length ys)) s)
                                                       - fst (slice_bounds (int (length ys)) s))
                                                     (drop (fst (slice_bounds (int (length ys)) s)) ys))))
                                   (\<lambda>a. hset obj field a)))
                     | _ \<Rightarrow> hreturn ()))))
       else hbind (hget obj field) (\<lambda>cur. harray_push cur v))))"

definition lastStep_pushAll :: "hval \<Rightarrow> string \<Rightarrow> hval \<Rightarrow> unit hm" where
  "lastStep_pushAll obj field vs =
     hbind (harray vs) (\<lambda>xs.
       if xs = None then hthrow NotAnArray
       else hbind (halloc (CObj [(''$each'', vs)])) (\<lambda>operand. lastStep_push obj field operand))"

text \<open>
  \<open>$addToSet\<close> calls itself on the elements of \<open>$each\<close>; the argument \<open>n\<close> bounds the depth
  of these calls, and the call stack is exhausted beyond it.
\<close>

definition compare_cells :: "hval \<Rightarrow> hval \<Rightarrow> int hm" where
  "compare_cells x y =
     hbind (hreify x) (\<lambda>tx.
     hbind (hreify y) (\<lambda>ty. hlift (compareThings compareNSB_str tx ty)))"

fun lastStep_addToSet_depth :: "nat \<Rightarrow> hval \<Rightarrow> string \<Rightarrow> hval \<Rightarrow> unit hm" where
  "lastStep_addToSet_depth 0 obj field v = hthrow RangeError"
| "lastStep_addToSet_depth (Suc n) obj field v =
     hbind (ensure_array_field obj field) (\<lambda>arr.
     hbind (if is_object v then hget v ''$each'' else hreturn VUndefined) (\<lambda>each.
       if is_object v \<and> htruthy each then
         hbind (hkeys v) (\<lambda>ks.
           if length ks > 1 then hthrow BadEach
           else hbind (harray each) (\<lambda>es. case es of
               None \<Rightarrow> hthrow BadEach
             | Some vs \<Rightarrow> hforEach vs (\<lambda>x. lastStep_addToSet_depth n obj field x)))
       else
         hbind (hget obj field) (\<lambda>cur.
         hbind (harray cur) (\<lambda>xs. case xs of
             None \<Rightarrow> hthrow TypeError
           | Some ys \<Rightarrow>
               hbind (hmap ys (\<lambda>x. compare_cells x v)) (\<lambda>cs.
                 if 0 \<in> set cs then hreturn ()
                 else hbind (hget obj field) (\<lambda>cur2. harray_push cur2 v))))))"

definition lastStep_addToSet :: "hval \<Rightarrow> string \<Rightarrow> hval \<Rightarrow> unit hm" where
  "lastStep_addToSet obj field v = (\<lambda>h. lastStep_addToSet_depth (Suc (length h)) obj field v h)"

definition lastStep_pop :: "hval \<Rightarrow> string \<Rightarrow> hval \<Rightarrow> unit hm" where
  "lastStep_pop obj field v =
     hbind (hget obj field) (\<lambda>cur.
     hbind (harray cur) (\<lambda>xs. case xs of
         None \<Rightarrow> hthrow NotAnArray
       | Some ys \<Rightarrow>
           (case v of
              VNum n \<Rightarrow>
                if n = 0 then hreturn ()
                else if n > 0 then hbind (halloc (CArr (butlast ys))) (\<lambda>a. hset obj field a)
                else hbind (halloc (CArr (tl ys))) (\<lambda>a. hset obj field a)
            | _ \<Rightarrow> hthrow NotANumber)))"

definition match_cells :: "runtime \<Rightarrow> hval \<Rightarrow> hval \<Rightarrow> bool hm" where
  "match_cells rt x q =
     hbind (hreify x) (\<lambda>tx.
     hbind (hreify q) (\<lambda>tq. hlift (match rt tx tq)))"

text \<open>The loop of \<open>$pull\<close> runs from the last index down and splices the array in place.\<close>

fun pull_loop :: "runtime \<Rightarrow> addr \<Rightarrow> hval \<Rightarrow> nat \<Rightarrow> unit hm" where
  "pull_loop rt a q 0 = hreturn ()"
| "pull_loop rt a q (Suc i) =
     hbind (hread a) (\<lambda>c. case c of
         CArr xs \<Rightarrow>
           hbind (match_cells rt (hnth xs (int i)) q) (\<lambda>m.
           hbind (if m then hwrite a (CArr (take i xs @ drop (Suc i) xs)) else hreturn ()) (\<lambda>u.
             pull_loop rt a q i))
       | _ \<Rightarrow> hthrow TypeError)"

definition lastStep_pull :: "runtime \<Rightarrow> hval \<Rightarrow> string \<Rightarrow> hval \<Rightarrow> unit hm" where
  "lastStep_pull rt obj field q =
     hbind (hget obj field) (\<lambda>cur.
     hbind (harray cur) (\<lambda>xs. case xs of
         None \<Rightarrow> hthrow NotAnArray
       | Some ys \<Rightarrow> (case cur of VRef a \<Rightarrow> pull_loop rt a q (length ys) | _ \<Rightarrow> hthrow TypeError)))"

text \<open>\<open>values.some (value => match (e, value))\<close>: the first match ends the search.\<close>

fun some_match :: "runtime \<Rightarrow> hval \<Rightarrow> hval list \<Rightarrow> bool hm" where
  "some_match rt e [] = hreturn False"
| "some_match rt e (v # vs) =
     hbind (match_cells rt e v) (\<lambda>m. if m then hreturn True else some_match rt e vs)"

fun filter_unmatched :: "runtime \<Rightarrow> hval list \<Rightarrow> hval list \<Rightarrow> hval list hm" where
  "filter_unmatched rt [] vs = hreturn []"
| "filter_unmatched rt (e # es) vs =
     hbind (some_match rt e vs) (\<lambda>m.
     hbind (filter_unmatched rt es vs) (\<lambda>rest. hreturn (if m then rest else e # rest)))"

definition lastStep_pullAll :: "runtime \<Rightarrow> hval \<Rightarrow> string \<Rightarrow> hval \<Rightarrow> unit hm" where
  "lastStep_pullAll rt obj field vs =
     hbind (hget obj field) (\<lambda>cur.
     hbind (harray cur) (\<lambda>xs. case xs of
         None \<Rightarrow> hthrow NotAnArray
       | Some arr \<Rightarrow>
           hbind (harray vs) (\<lambda>ys. case ys of
               None \<Rightarrow> hthrow NotAnArray
             | Some values \<Rightarrow>
                 hbind (filter_unmatched rt arr values) (\<lambda>kept.
                 hbind (halloc (CArr kept)) (\<lambda>a. hset obj field a)))))"

definition lastStep_inc :: "hval \<Rightarrow> string \<Rightarrow> hval \<Rightarrow> unit hm" where
  "lastStep_inc obj field v = (case v of
      VNum n \<Rightarrow>
        hbind (hget obj field) (\<lambda>cur. case cur of
            VNum m \<Rightarrow> hset obj field (VNum (m + n))
          | VUndefined \<Rightarrow> hset obj field v
          | _ \<Rightarrow> hthrow NotANumber)
    | _ \<Rightarrow> hthrow NotANumber)"

definition greater_cells :: "runtime \<Rightarrow> hval \<Rightarrow> hval \<Rightarrow> bool hm" where
  "greater_cells rt x y =
     hbind (hreify x) (\<lambda>tx.
     hbind (hreify y) (\<lambda>ty. hlift (js_gt rt tx ty)))"

definition less_cells :: "runtime \<Rightarrow> hval \<Rightarrow> hval \<Rightarrow> bool hm" where
  "less_cells rt x y =
     hbind (hreify x) (\<lambda>tx.
     hbind (hreify y) (\<lambda>ty. hlift (js_lt rt tx ty)))"

definition lastStep_max :: "runtime \<Rightarrow> hval \<Rightarrow> string \<Rightarrow> hval \<Rightarrow> unit hm" where
  "lastStep_max rt obj field v =
     hbind (hget obj field) (\<lambda>cur.
       if cur = VUndefined then hset obj field v
       else hbind (greater_cells rt v cur) (\<lambda>g. if g then hset obj field v else hreturn ()))"

definition lastStep_min :: "runtime \<Rightarrow> hval \<Rightarrow> string \<Rightarrow> hval \<Rightarrow> unit hm" where
  "lastStep_min rt obj field v =
     hbind (hget obj field) (\<lambda>cur.
       if cur = VUndefined then hset obj field v
       else hbind (less_cells rt v cur) (\<lambda>l. if l then hset obj field v else hreturn ()))"

definition lastStepModifierFunctions ::
    "runtime \<Rightarrow> string \<Rightarrow> (hval \<Rightarrow> string \<Rightarrow> hval \<Rightarrow> unit hm) option" where
  "lastStepModifierFunctions rt modifier =
     (if modifier = ''$set'' then Some lastStep_set
      else if modifier = ''$unset'' then Some lastStep_unset
      else if modifier = ''$push'' then Some lastStep_push
      else if modifier = ''$pushAll'' then Some lastStep_pushAll
      else if modifier = ''$addToSet'' then Some lastStep_addToSet
      else if modifier = ''$pop'' then Some lastStep_pop
      else if modifier = ''$pull'' then Some (lastStep_pull rt)
      else if modifier = ''$pullAll'' then Some (lastStep_pullAll rt)
      else if modifier = ''$inc'' then Some lastStep_inc
      else if modifier = ''$max'' then Some (lastStep_max rt)
      else if modifier = ''$min'' then Some (lastStep_min rt)
      else None)"


section \<open>Applying a modifier along a dotted path\<close>

fun h_getDotValue :: "hval \<Rightarrow> string list \<Rightarrow> hval hm" where
  "h_getDotValue obj [] = hreturn (if \<not> htruthy obj then VUndefined else obj)"
| "h_getDotValue obj [p] = (if \<not> htruthy obj then hreturn VUndefined else hget obj p)"
| "h_getDotValue obj (p # q # rest) =
     (if \<not> htruthy obj then hreturn VUndefined
      else hbind (hget obj p) (\<lambda>cur.
           hbind (harray cur) (\<lambda>xs. case xs of
               Some els \<Rightarrow>
                 (case parseInt q of
                    Some i \<Rightarrow> h_getDotValue (hnth els i) rest
                  | None \<Rightarrow> hbind (hmap els (\<lambda>el. h_getDotValue el (q # rest)))
                              (\<lambda>ys. halloc (CArr ys)))
             | None \<Rightarrow> h_getDotValue cur (q # rest))))"

text \<open>
  \<open>isNaN (parseInt (s))\<close>, the radix left to \<open>parseInt\<close>: after the white space and the
  sign, a prefix \<open>0x\<close> asks for a hexadecimal digit, anything else for a decimal one.
\<close>

definition is_hex_digit :: "char \<Rightarrow> bool" where
  "is_hex_digit c = (is_digit c \<or> c \<in> set ''abcdefABCDEF'')"

definition parseInt_isNaN :: "string \<Rightarrow> bool" where
  "parseInt_isNaN s =
     (let s1 = dropWhile is_space s;
          s2 = (if s1 \<noteq> [] \<and> (hd s1 = CHR ''-'' \<or> hd s1 = CHR ''+'') then tl s1 else s1)
      in case s2 of
           c # d # r \<Rightarrow>
             if c = CHR ''0'' \<and> (d = CHR ''x'' \<or> d = CHR ''X'')
             then (case r of [] \<Rightarrow> True | e # r' \<Rightarrow> \<not> is_hex_digit e)
             else \<not> is_digit c
         | [c] \<Rightarrow> \<not> is_digit c
         | [] \<Rightarrow> True)"

text \<open>
  A path without components is reached when the positional operator was the last
  component and no element matched: every step then reads the property named
  \<open>undefined\<close> and, for every modifier but \<open>$unset\<close>, creates it. On objects the descent
  does not end; \<open>n\<close> bounds it.
\<close>

fun modifier_without_field :: "nat \<Rightarrow> string \<Rightarrow> hval \<Rightarrow> unit hm" where
  "modifier_without_field 0 modifier obj = hthrow RangeError"
| "modifier_without_field (Suc n) modifier obj =
     hbind (harray obj) (\<lambda>xs.
       hforEach (case xs of Some els \<Rightarrow> els | None \<Rightarrow> [obj]) (\<lambda>el.
         hbind (hget el ''undefined'') (\<lambda>cur.
           if cur = VUndefined \<and> modifier = ''$unset'' then hreturn ()
           else
             hbind (if cur = VUndefined
                    then hbind (halloc (CObj [])) (\<lambda>fresh. hset el ''undefined'' fresh)
                    else hreturn ()) (\<lambda>u.
             hbind (hget el ''undefined'') (\<lambda>next. modifier_without_field n modifier next)))))"

definition index_of :: "string \<Rightarrow> string list \<Rightarrow> nat option" where
  "index_of x xs = (if x \<in> set xs then Some (length (takeWhile (\<lambda>y. y \<noteq> x) xs)) else None)"

definition join_dot :: "string list \<Rightarrow> string" where
  "join_dot ps = (case ps of [] \<Rightarrow> [] | p # rest \<Rightarrow> foldl (\<lambda>acc q. acc @ ''.'' @ q) p rest)"

text \<open>\<open>R.length\<close>: the length of an array or a string, the number in the property
  \<open>length\<close> of an object; zero stands for \<open>NaN\<close> and for a negative length, for which
  the range of indices is empty as well.\<close>

definition R_length :: "hval \<Rightarrow> nat hm" where
  "R_length v = (case v of
      VUndefined \<Rightarrow> hreturn 0
    | VNull \<Rightarrow> hreturn 0
    | _ \<Rightarrow> hbind (hget v ''length'') (\<lambda>l. hreturn (case l of VNum n \<Rightarrow> nat n | _ \<Rightarrow> 0)))"

fun hfilter :: "'a list \<Rightarrow> ('a \<Rightarrow> bool hm) \<Rightarrow> 'a list hm" where
  "hfilter [] f = hreturn []"
| "hfilter (x # xs) f =
     hbind (f x) (\<lambda>b. hbind (hfilter xs f) (\<lambda>ys. hreturn (if b then x # ys else ys)))"

text \<open>
  \<open>modifierFunctions [modifier] (obj, field, value, query)\<close>, the field already split.
  \<open>inner\<close> is the function \<open>modify\<close> that the positional operator calls on the document
  with an update of its own; the calls that the function makes to itself pass no query.
\<close>

function modifierFunction ::
    "(hval \<Rightarrow> hval \<Rightarrow> hval hm) \<Rightarrow> runtime \<Rightarrow> string \<Rightarrow> hval \<Rightarrow> string list \<Rightarrow> hval \<Rightarrow> hval \<Rightarrow> unit hm"
where
  "modifierFunction inner rt modifier obj [] v query =
     (\<lambda>h. modifier_without_field (Suc (length h)) modifier obj h)"
| "modifierFunction inner rt modifier obj [p] v query =
     hbind (harray obj) (\<lambda>xs.
       hforEach (case xs of Some els \<Rightarrow> if parseInt_isNaN p then els else [obj] | None \<Rightarrow> [obj])
         (\<lambda>el. case lastStepModifierFunctions rt modifier of
                  None \<Rightarrow> hthrow UnknownModifier
                | Some f \<Rightarrow> f el p v))"
| "modifierFunction inner rt modifier obj (p # q # rest) v query =
     hbind (harray obj) (\<lambda>xs.
       hforEach (case xs of Some els \<Rightarrow> if parseInt_isNaN p then els else [obj] | None \<Rightarrow> [obj])
         (\<lambda>el.
           hbind (hget el p) (\<lambda>cur.
             if cur = VUndefined \<and> modifier = ''$unset'' then hreturn ()
             else
               hbind (if cur = VUndefined
                      then hbind (halloc (CObj [])) (\<lambda>fresh. hset el p fresh)
                      else hreturn ()) (\<lambda>u.
                 case (if htruthy query then index_of ''$'' (p # q # rest) else None) of
                   None \<Rightarrow>
                     hbind (hget el p) (\<lambda>next.
                       modifierFunction inner rt modifier next (q # rest) v VUndefined)
                 | Some dollarIndex \<Rightarrow>
                     if length (filter (\<lambda>x. x = ''$'') (p # q # rest)) \<noteq> 1 then hthrow AssertionError
                     else if dollarIndex = 0 then hthrow AssertionError
                     else
                       hbind (h_getDotValue obj (split_dot (join_dot (take dollarIndex (p # q # rest))))) (\<lambda>array.
                       hbind (R_length array) (\<lambda>len.
                       hbind (hfilter [0 ..< len] (\<lambda>i.
                                hbind (hget array (string_of_nat i)) (\<lambda>ai.
                                hbind (halloc (CArr [ai])) (\<lambda>single.
                                hbind (halloc (CObj [(join_dot (take dollarIndex (p # q # rest)), single)])) (\<lambda>setter.
                                hbind (halloc (CObj [(''$set'', setter)])) (\<lambda>update.
                                hbind (inner obj update) (\<lambda>modified.
                                  match_cells rt modified query))))))) (\<lambda>matchArrayIndexs.
                         if matchArrayIndexs = [] then
                           hbind (hget el p) (\<lambda>next.
                             modifierFunction inner rt modifier next
                               (filter (\<lambda>x. x \<noteq> ''$'') (q # rest)) v VUndefined)
                         else
                           hforEach matchArrayIndexs (\<lambda>index.
                             hbind (hget el p) (\<lambda>next.
                               modifierFunction inner rt modifier next
                                 (tl ((p # q # rest)[dollarIndex := string_of_nat index])) v VUndefined)))))))))"
  by pat_completeness auto
termination
proof (relation "measure (\<lambda>(inner, rt, modifier, obj, parts, v, query). length parts)", goal_cases)
  case 1
  show ?case by simp
next
  case 2
  then show ?case by simp
next
  case (3 inner rt modifier obj p q rest v query)
  have "length (filter (\<lambda>x. x \<noteq> ''$'') (q # rest)) \<le> length (q # rest)"
    by (rule length_filter_le)
  then show ?case by simp
next
  case 4
  then show ?case by (simp del: list_update.simps)
qed

declare modifierFunction.simps [simp del]


section \<open>modify\<close>

text \<open>
  \<open>modify (obj, updateQuery, query)\<close>. The global \<open>MONGOOSE_DRIVER_PATH\<close> is not set, so
  that \<open>isMongoose ()\<close> is false and the update object is taken as it is. The inequalities
  on \<open>_id\<close> are strict: numbers, strings and booleans differ by value, dates, arrays and
  objects by identity.
\<close>

text \<open>\<open>uniq\<close> keeps the first occurrence of every element.\<close>

definition uniq :: "string list \<Rightarrow> string list" where
  "uniq xs = rev (remdups (rev xs))"

definition validate :: "hval \<Rightarrow> unit hm" where
  "validate v = hbind (hreify v) (\<lambda>t. hlift (checkObject t))"

definition apply_modifiers ::
    "(hval \<Rightarrow> hval \<Rightarrow> hval hm) \<Rightarrow> runtime \<Rightarrow> hval \<Rightarrow> hval \<Rightarrow> string list \<Rightarrow> hval \<Rightarrow> unit hm" where
  "apply_modifiers inner rt newDoc updateQuery modifiers query =
     hforEach modifiers (\<lambda>m.
       if lastStepModifierFunctions rt m = None then hthrow UnknownModifier
       else
         hbind (hget updateQuery m) (\<lambda>operand.
           if htypeof operand \<noteq> ''object'' then hthrow ModifierArg
           else
             hbind (hkeys operand) (\<lambda>ks.
               hforEach ks (\<lambda>k.
                 hbind (hget updateQuery m) (\<lambda>current.
                 hbind (hget current k) (\<lambda>v.
                   modifierFunction inner rt m newDoc (split_dot k) v query))))))"

definition modify_with ::
    "(hval \<Rightarrow> hval \<Rightarrow> hval hm) \<Rightarrow> runtime \<Rightarrow> hval \<Rightarrow> hval \<Rightarrow> hval \<Rightarrow> hval hm" where
  "modify_with inner rt obj updateQuery query =
     hbind (hkeys updateQuery) (\<lambda>keys.
     hbind (if ''_id'' \<in> set keys then
              hbind (hget updateQuery ''_id'') (\<lambda>uid.
              hbind (hget obj ''_id'') (\<lambda>oid.
                if uid \<noteq> oid then hthrow ImmutableId else hreturn ()))
            else hreturn ()) (\<lambda>u.
       if filter starts_with_dollar keys \<noteq> [] \<and>
          length (filter starts_with_dollar keys) \<noteq> length keys then hthrow MixedUpdate
       else
         hbind (if filter starts_with_dollar keys = [] then
                  hbind (deepCopy_value updateQuery) (\<lambda>newDoc.
                  hbind (hget obj ''_id'') (\<lambda>oid.
                  hbind (hset newDoc ''_id'' oid) (\<lambda>u. hreturn newDoc)))
                else
                  hbind (deepCopy_value obj) (\<lambda>newDoc.
                  hbind (apply_modifiers inner rt newDoc updateQuery (uniq keys) query) (\<lambda>u.
                    hreturn newDoc))) (\<lambda>newDoc.
         hbind (validate newDoc) (\<lambda>u.
         hbind (hget obj ''_id'') (\<lambda>oid.
         hbind (hget newDoc ''_id'') (\<lambda>nid.
           if oid \<noteq> nid then hthrow ImmutableId else hreturn newDoc))))))"

text \<open>The call without a query never reaches the positional operator.\<close>

definition modify_without_query :: "runtime \<Rightarrow> hval \<Rightarrow> hval \<Rightarrow> hval hm" where
  "modify_without_query rt obj updateQuery =
     modify_with (\<lambda>d u. hthrow Unmodelled) rt obj updateQuery VUndefined"

definition modify :: "runtime \<Rightarrow> hval \<Rightarrow> hval \<Rightarrow> hval \<Rightarrow> hval hm" where
  "modify rt obj updateQuery query =
     modify_with (modify_without_query rt) rt obj updateQuery query"


section \<open>What modify writes\<close>

lemma preserves_pure:
  assumes "\<And>h. snd (m h) = h"
  shows "preserves P m (\<lambda>x. True)"
  unfolding preserves_def
proof (intro allI impI)
  fix h assume "sealed P h"
  then show "case m h of (r, h') \<Rightarrow> sealed P h' \<and> keeps P h h' \<and> (\<forall>x. r = Inr x \<longrightarrow> True)"
    using assms[of h] by (cases "m h") (simp add: keeps_refl)
qed

lemma bind_T:
  "preserves P m (\<lambda>x. True) \<Longrightarrow> (\<And>x. preserves P (f x) R) \<Longrightarrow> preserves P (hbind m f) R"
  by (rule preserves_bind[where Q="\<lambda>x. True"]) auto

lemma bind_out:
  "preserves P m (outside P) \<Longrightarrow> (\<And>x. outside P x \<Longrightarrow> preserves P (f x) R)
     \<Longrightarrow> preserves P (hbind m f) R"
  by (rule preserves_bind)

lemma to_T: "preserves P m Q \<Longrightarrow> preserves P m (\<lambda>x. True)"
  by (erule preserves_weaken) simp

lemma return_T: "preserves P (hreturn x) (\<lambda>x. True)"
  by (simp add: preserves_return)

lemma snd_hbind:
  "(\<And>h. snd (m h) = h) \<Longrightarrow> (\<And>x h. snd (f x h) = h) \<Longrightarrow> snd (hbind m f h) = h"
proof -
  assume m: "\<And>h. snd (m h) = h" and f: "\<And>x h. snd (f x h) = h"
  obtain r h1 where 1: "m h = (r, h1)" by (cases "m h")
  then have "h1 = h" using m[of h] by simp
  then show ?thesis using 1 f by (cases r) (auto simp: hbind_def)
qed

lemma snd_hread [simp]: "snd (hread a h) = h"
  by (simp add: hread_def)

lemma snd_hreturn [simp]: "snd (hreturn x h) = h"
  by (simp add: hreturn_def)

lemma snd_hthrow [simp]: "snd (hthrow e h) = h"
  by (simp add: hthrow_def)

lemma snd_hlift [simp]: "snd (hlift r h) = h"
  by (simp add: hlift_def)

lemma snd_hreify [simp]: "snd (hreify v h) = h"
  by (simp add: hreify_def split: option.splits)

lemma snd_hget [simp]: "snd (hget v k h) = h"
  by (cases v) (simp_all add: hget_def snd_hbind)

lemma snd_hkeys [simp]: "snd (hkeys v h) = h"
  by (cases v) (simp_all add: hkeys_def snd_hbind)

lemma snd_harray [simp]: "snd (harray v h) = h"
  by (cases v) (simp_all add: harray_def snd_hbind)

lemma snd_hasOwnProperty [simp]: "snd (hasOwnProperty v k h) = h"
  by (cases v) (simp_all add: hasOwnProperty_def snd_hbind)

lemma cell_get_vals: "outside P (cell_get c k) \<or> cell_get c k \<in> cell_vals c"
proof (cases c)
  case (CArr xs)
  then show ?thesis
    by (auto simp: cell_get_def cell_vals_def outside_def hnth_def split: option.splits)
next
  case (CObj kvs)
  show ?thesis
  proof (cases "map_of kvs k")
    case None
    then show ?thesis using CObj by (simp add: cell_get_def hown_def outside_def)
  next
    case (Some v)
    then have "(k, v) \<in> set kvs" by (rule map_of_SomeD)
    then have "v \<in> snd ` set kvs" by force
    then show ?thesis using CObj Some by (simp add: cell_get_def hown_def cell_vals_def)
  qed
qed

lemma get_out: "outside P v \<Longrightarrow> preserves P (hget v k) (outside P)"
proof (cases v)
  case (VRef a)
  assume "outside P v"
  then have a: "a \<notin> P" using VRef by (simp add: outside_def)
  have "preserves P (hbind (hread a) (\<lambda>c. hreturn (cell_get c k))) (outside P)"
  proof (rule preserves_bind[OF preserves_read])
    fix c assume "a \<notin> P \<longrightarrow> (\<forall>v\<in>cell_vals c. outside P v)"
    then have "outside P (cell_get c k)" using a cell_get_vals[of P c k] by auto
    then show "preserves P (hreturn (cell_get c k)) (outside P)" by (rule preserves_return)
  qed
  then show ?thesis using VRef by (simp add: hget_def)
qed (auto simp: hget_def outside_def intro!: preserves_return preserves_throw split: option.splits)

lemma get_T: "preserves P (hget v k) (\<lambda>x. True)"
  by (rule preserves_pure) simp

lemma keys_T: "preserves P (hkeys v) (\<lambda>x. True)"
  by (rule preserves_pure) simp

lemma hasOwn_T: "preserves P (hasOwnProperty v k) (\<lambda>x. True)"
  by (rule preserves_pure) simp

lemma reify_T: "preserves P (hreify v) (\<lambda>x. True)"
  by (rule preserves_pure) simp

lemma lift_T: "preserves P (hlift r) (\<lambda>x. True)"
  by (rule preserves_pure) simp

lemma array_out:
  "outside P v \<Longrightarrow> preserves P (harray v) (\<lambda>r. \<forall>xs. r = Some xs \<longrightarrow> (\<forall>x \<in> set xs. outside P x))"
proof (cases v)
  case (VRef a)
  assume "outside P v"
  then have a: "a \<notin> P" using VRef by (simp add: outside_def)
  have "preserves P (hbind (hread a) (\<lambda>c. hreturn (case c of CArr xs \<Rightarrow> Some xs | _ \<Rightarrow> None)))
          (\<lambda>r. \<forall>xs. r = Some xs \<longrightarrow> (\<forall>x \<in> set xs. outside P x))"
  proof (rule preserves_bind[OF preserves_read])
    fix c assume "a \<notin> P \<longrightarrow> (\<forall>v\<in>cell_vals c. outside P v)"
    then show "preserves P (hreturn (case c of CArr xs \<Rightarrow> Some xs | _ \<Rightarrow> None))
          (\<lambda>r. \<forall>xs. r = Some xs \<longrightarrow> (\<forall>x \<in> set xs. outside P x))"
      using a by (intro preserves_return) (auto simp: cell_vals_def split: cell.splits)
  qed
  then show ?thesis using VRef by (simp add: harray_def)
qed (auto simp: harray_def intro!: preserves_return)

lemma array_T: "preserves P (harray v) (\<lambda>x. True)"
  by (rule preserves_pure) simp

lemma put_property_vals: "snd ` set (put_property kvs k x) \<subseteq> insert x (snd ` set kvs)"
proof -
  have "snd ` set (insert_index_key i k x kvs) \<subseteq> insert x (snd ` set kvs)" for i
    by (induction kvs) (auto split: option.splits)
  then show ?thesis
    by (auto simp: put_property_def split: option.splits if_splits)
qed

lemma set_out:
  assumes "outside P v" "outside P x"
  shows "preserves P (hset v k x) (\<lambda>u. True)"
proof (cases v)
  case (VRef a)
  then have a: "a \<notin> P" using assms(1) by (simp add: outside_def)
  have "preserves P (hbind (hread a) (\<lambda>c. case c of
            CObj kvs \<Rightarrow> hwrite a (CObj (put_property kvs k x))
          | CArr xs \<Rightarrow>
              (case array_index k of
                 None \<Rightarrow> hthrow Unmodelled
               | Some i \<Rightarrow>
                   if i < length xs then hwrite a (CArr (xs[i := x]))
                   else hwrite a (CArr (xs @ replicate (i - length xs) VUndefined @ [x]))))) (\<lambda>u. True)"
  proof (rule preserves_bind[OF preserves_read])
    fix c assume c: "a \<notin> P \<longrightarrow> (\<forall>v\<in>cell_vals c. outside P v)"
    show "preserves P (case c of
            CObj kvs \<Rightarrow> hwrite a (CObj (put_property kvs k x))
          | CArr xs \<Rightarrow>
              (case array_index k of
                 None \<Rightarrow> hthrow Unmodelled
               | Some i \<Rightarrow>
                   if i < length xs then hwrite a (CArr (xs[i := x]))
                   else hwrite a (CArr (xs @ replicate (i - length xs) VUndefined @ [x])))) (\<lambda>u. True)"
    proof (cases c)
      case (CArr xs)
      have "\<And>i v. v \<in> set (xs[i := x]) \<Longrightarrow> outside P v"
        using c a CArr assms(2) by (auto simp: cell_vals_def dest!: set_update_subset_insert[THEN subsetD])
      moreover have "\<And>i v. v \<in> set (xs @ replicate i VUndefined @ [x]) \<Longrightarrow> outside P v"
        using c a CArr assms(2) by (auto simp: cell_vals_def outside_def)
      moreover have "outside P VUndefined" by (simp add: outside_def)
      ultimately show ?thesis using CArr a
        by (auto simp: cell_vals_def intro!: preserves_write preserves_throw split: option.splits)
    next
      case (CObj kvs)
      have "outside P v" if "v \<in> snd ` set (put_property kvs k x)" for v
      proof -
        from that put_property_vals[of kvs k x] have "v = x \<or> v \<in> snd ` set kvs" by blast
        then show ?thesis using c a CObj assms(2) by (auto simp: cell_vals_def)
      qed
      then show ?thesis using CObj a
        by (auto simp: cell_vals_def intro!: preserves_write)
    qed
  qed
  then show ?thesis using VRef by (simp add: hset_def)
qed (auto simp: hset_def intro!: preserves_return preserves_throw)


lemma hbind_return [simp]: "hbind (hreturn x) f = f x"
  by (simp add: hbind_def hreturn_def)

lemma hbind_throw [simp]: "hbind (hthrow e) f = hthrow e"
  by (simp add: hbind_def hthrow_def)

lemma hbind_assoc [simp]: "hbind (hbind m f) g = hbind m (\<lambda>x. hbind (f x) g)"
  by (auto simp: hbind_def fun_eq_iff split: prod.splits sum.splits)

lemma hbind_if [simp]:
  "hbind (if b then m1 else m2) f = (if b then hbind m1 f else hbind m2 f)"
  by simp

lemma delete_out:
  assumes "outside P v"
  shows "preserves P (hdelete v k) (\<lambda>u. True)"
proof (cases v)
  case (VRef a)
  then have a: "a \<notin> P" using assms(1) by (simp add: outside_def)
  have "preserves P (hbind (hread a) (\<lambda>c. case c of
            CObj kvs \<Rightarrow> hwrite a (CObj (filter (\<lambda>kv. fst kv \<noteq> k) kvs))
          | CArr xs \<Rightarrow>
              (case array_index k of
                 None \<Rightarrow> hreturn ()
               | Some i \<Rightarrow> if i < length xs then hwrite a (CArr (xs[i := VUndefined]))
                           else hreturn ()))) (\<lambda>u. True)"
  proof (rule preserves_bind[OF preserves_read])
    fix c assume c: "a \<notin> P \<longrightarrow> (\<forall>v\<in>cell_vals c. outside P v)"
    have u: "outside P VUndefined" by (simp add: outside_def)
    show "preserves P (case c of
            CObj kvs \<Rightarrow> hwrite a (CObj (filter (\<lambda>kv. fst kv \<noteq> k) kvs))
          | CArr xs \<Rightarrow>
              (case array_index k of
                 None \<Rightarrow> hreturn ()
               | Some i \<Rightarrow> if i < length xs then hwrite a (CArr (xs[i := VUndefined]))
                           else hreturn ())) (\<lambda>u. True)"
    proof (cases c)
      case (CArr xs)
      have "\<And>i v. v \<in> set (xs[i := VUndefined]) \<Longrightarrow> outside P v"
        using c a CArr u by (auto simp: cell_vals_def dest!: set_update_subset_insert[THEN subsetD])
      then show ?thesis using CArr a
        by (auto simp: cell_vals_def intro!: preserves_write preserves_return split: option.splits)
    next
      case (CObj kvs)
      then show ?thesis using c a
        by (auto simp: cell_vals_def intro!: preserves_write)
    qed
  qed
  then show ?thesis using VRef by (simp add: hdelete_def)
qed (auto simp: hdelete_def intro!: preserves_return preserves_throw)

lemma push_out:
  assumes "outside P arr" "outside P x"
  shows "preserves P (harray_push arr x) (\<lambda>u. True)"
proof (cases arr)
  case (VRef a)
  then have a: "a \<notin> P" using assms(1) by (simp add: outside_def)
  have "preserves P (hbind (hread a) (\<lambda>c. case c of
                   CArr xs \<Rightarrow> hwrite a (CArr (xs @ [x]))
                 | _ \<Rightarrow> hthrow TypeError)) (\<lambda>u. True)"
  proof (rule preserves_bind[OF preserves_read])
    fix c assume c: "a \<notin> P \<longrightarrow> (\<forall>v\<in>cell_vals c. outside P v)"
    show "preserves P (case c of
                   CArr xs \<Rightarrow> hwrite a (CArr (xs @ [x]))
                 | _ \<Rightarrow> hthrow TypeError) (\<lambda>u. True)"
      using c a assms(2)
      by (cases c) (auto simp: cell_vals_def intro!: preserves_write preserves_throw)
  qed
  then show ?thesis using VRef by (simp add: harray_push_def)
qed (auto simp: harray_push_def intro!: preserves_throw)

text \<open>The rules by the first step of a sequence.\<close>

lemma bind_get:
  "outside P v \<Longrightarrow> (\<And>x. outside P x \<Longrightarrow> preserves P (f x) R) \<Longrightarrow> preserves P (hbind (hget v k) f) R"
  by (rule bind_out[OF get_out])

lemma bind_array:
  "outside P v \<Longrightarrow>
   (\<And>r. (\<forall>xs. r = Some xs \<longrightarrow> (\<forall>x \<in> set xs. outside P x)) \<Longrightarrow> preserves P (f r) R)
     \<Longrightarrow> preserves P (hbind (harray v) f) R"
  by (rule preserves_bind[OF array_out])

lemma bind_keys: "(\<And>x. preserves P (f x) R) \<Longrightarrow> preserves P (hbind (hkeys v) f) R"
  by (rule bind_T[OF keys_T])

lemma bind_hasOwn: "(\<And>x. preserves P (f x) R) \<Longrightarrow> preserves P (hbind (hasOwnProperty v k) f) R"
  by (rule bind_T[OF hasOwn_T])

lemma bind_reify: "(\<And>x. preserves P (f x) R) \<Longrightarrow> preserves P (hbind (hreify v) f) R"
  by (rule bind_T[OF reify_T])

lemma bind_lift: "(\<And>x. preserves P (f x) R) \<Longrightarrow> preserves P (hbind (hlift r) f) R"
  by (rule bind_T[OF lift_T])

lemma bind_alloc:
  "(\<And>v. v \<in> cell_vals c \<Longrightarrow> outside P v) \<Longrightarrow> (\<And>x. outside P x \<Longrightarrow> preserves P (f x) R)
     \<Longrightarrow> preserves P (hbind (halloc c) f) R"
  by (rule bind_out[OF preserves_alloc])

lemma bind_set:
  "outside P v \<Longrightarrow> outside P x \<Longrightarrow> (\<And>u. preserves P (f u) R)
     \<Longrightarrow> preserves P (hbind (hset v k x) f) R"
  by (rule bind_T[OF set_out])

lemma bind_push:
  "outside P v \<Longrightarrow> outside P x \<Longrightarrow> (\<And>u. preserves P (f u) R)
     \<Longrightarrow> preserves P (hbind (harray_push v x) f) R"
  by (rule bind_T[OF push_out])

lemma bind_forEach:
  "(\<And>x. x \<in> set xs \<Longrightarrow> preserves P (g x) (\<lambda>u. True)) \<Longrightarrow> (\<And>u. preserves P (f u) R)
     \<Longrightarrow> preserves P (hbind (hforEach xs g) f) R"
  by (rule bind_T[OF preserves_forEach])

lemmas frame_first = bind_get bind_array bind_keys bind_hasOwn bind_reify bind_lift bind_alloc
  bind_set bind_push bind_forEach

lemmas frame_last = set_out push_out delete_out preserves_forEach preserves_throw return_T
  to_T[OF get_out] to_T[OF preserves_alloc] lift_T

lemma outside_simps [simp]:
  "outside P VUndefined" "outside P VNull" "outside P (VNum n)" "outside P (VStr s)"
  "outside P (VBool b)" "outside P (VDate i t)"
  by (simp_all add: outside_def)

lemma cell_vals_simps [simp]:
  "cell_vals (CArr xs) = set xs" "cell_vals (CObj kvs) = snd ` set kvs"
  by (simp_all add: cell_vals_def)

lemma ensure_array_field_out:
  "outside P obj \<Longrightarrow> preserves P (ensure_array_field obj field) (outside P)"
  unfolding ensure_array_field_def
  by (auto intro!: frame_first preserves_return preserves_throw)

lemma bind_ensure:
  "outside P obj \<Longrightarrow> (\<And>x. outside P x \<Longrightarrow> preserves P (f x) R)
     \<Longrightarrow> preserves P (hbind (ensure_array_field obj field) f) R"
  by (rule bind_out[OF ensure_array_field_out])

lemma in_take_drop: "v \<in> set (take n (drop m xs)) \<Longrightarrow> v \<in> set xs"
  by (meson in_set_takeD in_set_dropD)

lemma lastStep_push_out:
  "outside P obj \<Longrightarrow> outside P v \<Longrightarrow> preserves P (lastStep_push obj field v) (\<lambda>u. True)"
  unfolding lastStep_push_def
  by (auto intro!: bind_ensure frame_first frame_last dest!: in_take_drop
      split: option.splits hval.splits)


lemma lastStep_pushAll_out:
  "outside P obj \<Longrightarrow> outside P v \<Longrightarrow> preserves P (lastStep_pushAll obj field v) (\<lambda>u. True)"
  unfolding lastStep_pushAll_def
  by (auto intro!: frame_first frame_last bind_out[OF preserves_alloc] lastStep_push_out)

lemma compare_cells_T: "preserves P (compare_cells x y) (\<lambda>c. True)"
  unfolding compare_cells_def by (intro frame_first frame_last)

lemma match_cells_T: "preserves P (match_cells rt x y) (\<lambda>c. True)"
  unfolding match_cells_def by (intro frame_first frame_last)

lemma greater_cells_T: "preserves P (greater_cells rt x y) (\<lambda>c. True)"
  unfolding greater_cells_def by (intro frame_first frame_last)

lemma less_cells_T: "preserves P (less_cells rt x y) (\<lambda>c. True)"
  unfolding less_cells_def by (intro frame_first frame_last)

lemma lastStep_addToSet_depth_out:
  "outside P obj \<Longrightarrow> outside P v \<Longrightarrow>
     preserves P (lastStep_addToSet_depth n obj field v) (\<lambda>u. True)"
proof (induction n arbitrary: v)
  case 0
  then show ?case by (simp add: preserves_throw)
next
  case (Suc n)
  have map: "preserves P (hmap ys (\<lambda>x. compare_cells x v)) (\<lambda>cs. True)" for ys
    by (rule to_T[OF preserves_map[where R="\<lambda>c. True"]]) (rule compare_cells_T)
  show ?case
    using Suc.prems
    by (auto intro!: bind_ensure frame_first frame_last bind_T[OF map] Suc.IH
        split: option.splits)
qed

lemma preserves_at_length:
  assumes "\<And>n. preserves P (m n) R"
  shows "preserves P (\<lambda>h. m (g h) h) R"
  unfolding preserves_def
proof (intro allI impI)
  fix h assume "sealed P h"
  then show "case m (g h) h of (r, h') \<Rightarrow> sealed P h' \<and> keeps P h h' \<and> (\<forall>x. r = Inr x \<longrightarrow> R x)"
    using assms[of "g h"] by (simp add: preserves_def)
qed

lemma lastStep_addToSet_out:
  "outside P obj \<Longrightarrow> outside P v \<Longrightarrow> preserves P (lastStep_addToSet obj field v) (\<lambda>u. True)"
  unfolding lastStep_addToSet_def
  by (rule preserves_at_length) (rule lastStep_addToSet_depth_out)

lemma in_set_tlD: "x \<in> set (tl xs) \<Longrightarrow> x \<in> set xs"
  by (cases xs) auto

lemma lastStep_pop_out:
  "outside P obj \<Longrightarrow> preserves P (lastStep_pop obj field v) (\<lambda>u. True)"
  unfolding lastStep_pop_def
  by (auto intro!: frame_first frame_last dest!: in_set_butlastD in_set_tlD
      split: option.splits hval.splits)

lemma bind_write:
  "a \<notin> P \<Longrightarrow> (\<And>v. v \<in> cell_vals c \<Longrightarrow> outside P v) \<Longrightarrow> (\<And>u. preserves P (f u) R)
     \<Longrightarrow> preserves P (hbind (hwrite a c) f) R"
  by (rule bind_T[OF preserves_write])

lemma pull_loop_out:
  "a \<notin> P \<Longrightarrow> preserves P (pull_loop rt a q i) (\<lambda>u. True)"
proof (induction i)
  case 0
  then show ?case by (simp add: return_T)
next
  case (Suc i)
  show ?case
    apply simp
    apply (rule preserves_bind[OF preserves_read])
    subgoal for c
      using Suc
      by (cases c)
         (auto intro!: bind_T[OF match_cells_T] bind_write preserves_throw
               dest!: in_set_takeD in_set_dropD)
    done
qed

lemma lastStep_pull_out:
  "outside P obj \<Longrightarrow> preserves P (lastStep_pull rt obj field q) (\<lambda>u. True)"
  unfolding lastStep_pull_def
  by (auto intro!: frame_first frame_last pull_loop_out simp: outside_def
      split: option.splits hval.splits)

lemma some_match_T: "preserves P (some_match rt e vs) (\<lambda>b. True)"
  by (induction vs) (auto intro!: return_T bind_T[OF match_cells_T])

lemma filter_unmatched_out:
  "\<forall>e \<in> set es. outside P e \<Longrightarrow>
     preserves P (filter_unmatched rt es vs) (\<lambda>ys. \<forall>y \<in> set ys. outside P y)"
proof (induction es)
  case Nil
  then show ?case by (simp add: preserves_return)
next
  case (Cons e es)
  show ?case
    apply simp
    apply (rule bind_T[OF some_match_T])
    apply (rule preserves_bind[OF Cons.IH])
    using Cons.prems apply simp
    apply (rule preserves_return)
    using Cons.prems apply simp
    done
qed

lemma lastStep_pullAll_out:
  "outside P obj \<Longrightarrow> preserves P (lastStep_pullAll rt obj field vs) (\<lambda>u. True)"
  unfolding lastStep_pullAll_def
  apply (rule bind_get, assumption)
  apply (rule bind_array, assumption)
  apply (auto intro!: frame_last bind_T[OF array_T] preserves_bind[OF filter_unmatched_out] bind_alloc
      bind_set split: option.splits)
  done

lemma lastStep_inc_out:
  "outside P obj \<Longrightarrow> preserves P (lastStep_inc obj field v) (\<lambda>u. True)"
  unfolding lastStep_inc_def
  by (auto intro!: frame_first frame_last split: hval.splits)

lemma lastStep_max_out:
  "outside P obj \<Longrightarrow> outside P v \<Longrightarrow> preserves P (lastStep_max rt obj field v) (\<lambda>u. True)"
  unfolding lastStep_max_def
  by (auto intro!: frame_first frame_last bind_T[OF greater_cells_T])

lemma lastStep_min_out:
  "outside P obj \<Longrightarrow> outside P v \<Longrightarrow> preserves P (lastStep_min rt obj field v) (\<lambda>u. True)"
  unfolding lastStep_min_def
  by (auto intro!: frame_first frame_last bind_T[OF less_cells_T])

lemma lastStep_out:
  "lastStepModifierFunctions rt modifier = Some f \<Longrightarrow> outside P obj \<Longrightarrow> outside P v \<Longrightarrow>
     preserves P (f obj field v) (\<lambda>u. True)"
  by (auto simp: lastStepModifierFunctions_def lastStep_set_def lastStep_unset_def
      intro!: set_out delete_out lastStep_push_out lastStep_pushAll_out lastStep_addToSet_out
        lastStep_pop_out lastStep_pull_out lastStep_pullAll_out lastStep_inc_out
        lastStep_max_out lastStep_min_out
      split: if_splits)


lemma map_out:
  assumes "\<And>x. x \<in> set xs \<Longrightarrow> preserves P (f x) (outside P)"
  shows "preserves P (hmap xs f) (\<lambda>ys. \<forall>y \<in> set ys. outside P y)"
  using assms by (rule preserves_map)

lemma deepCopy_out:
  "outside P v \<Longrightarrow> preserves P (deepCopy n strictKeys v) (outside P)"
proof (induction n arbitrary: v)
  case 0
  then show ?case by (cases v) (auto intro!: preserves_return preserves_throw)
next
  case (Suc n)
  show ?case
  proof (cases v)
    case (VRef a)
    then have a: "a \<notin> P" using Suc.prems by (simp add: outside_def)
    have entries: "preserves P
        (hmap kvs (\<lambda>kv. hbind (deepCopy n strictKeys (snd kv)) (\<lambda>y. hreturn (fst kv, y))))
        (\<lambda>ys. \<forall>y \<in> set ys. outside P (snd y))"
      if "\<forall>kv \<in> set kvs. outside P (snd kv)" for kvs
    proof -
      have "preserves P (hbind (deepCopy n strictKeys (snd kv)) (\<lambda>y. hreturn (fst kv, y)))
              (\<lambda>y. outside P (snd y))" if "kv \<in> set kvs" for kv
        using that \<open>\<forall>kv \<in> set kvs. outside P (snd kv)\<close>
        by (auto intro!: bind_out[OF Suc.IH] preserves_return)
      then show ?thesis
        by (rule preserves_map[where R="\<lambda>y. outside P (snd y)"])
    qed
    have "preserves P (case c of
         CArr xs \<Rightarrow> hbind (hmap xs (deepCopy n strictKeys)) (\<lambda>ys. halloc (CArr ys))
       | CObj kvs \<Rightarrow>
           if hown kvs ''_bsontype'' = VStr ''ObjectID'' then hreturn (VRef a)
           else hbind (hmap (filter (\<lambda>kv. \<not> strictKeys \<or>
                                           (\<not> starts_with_dollar (fst kv) \<and> \<not> contains_dot (fst kv))) kvs)
                        (\<lambda>kv. hbind (deepCopy n strictKeys (snd kv)) (\<lambda>y. hreturn (fst kv, y))))
                  (\<lambda>kvs'. halloc (CObj kvs'))) (outside P)"
      if c: "a \<notin> P \<longrightarrow> (\<forall>v\<in>cell_vals c. outside P v)" for c
    proof (cases c)
      case (CArr xs)
      then have "\<And>x. x \<in> set xs \<Longrightarrow> outside P x" using c a by simp
      then show ?thesis using CArr
        by (auto intro!: preserves_bind[OF map_out] Suc.IH preserves_alloc)
    next
      case (CObj kvs)
      then have "\<forall>kv \<in> set kvs. outside P (snd kv)" using c a by simp
      then have "\<forall>kv \<in> set (filter (\<lambda>kv. \<not> strictKeys \<or>
                   (\<not> starts_with_dollar (fst kv) \<and> \<not> contains_dot (fst kv))) kvs). outside P (snd kv)"
        by simp
      from entries[OF this] show ?thesis using CObj a Suc.prems VRef
        by (auto intro!: preserves_bind[where Q="\<lambda>ys. \<forall>y \<in> set ys. outside P (snd y)"]
            preserves_return preserves_alloc simp del: hbind_assoc)
    qed
    then show ?thesis using VRef
      by (simp del: hbind_assoc hbind_if) (rule preserves_bind[OF preserves_read])
  qed (auto intro!: preserves_return)
qed

lemma deepCopy_value_out: "outside P v \<Longrightarrow> preserves P (deepCopy_value v) (outside P)"
  unfolding deepCopy_value_def
  by (rule preserves_at_length) (rule deepCopy_out)

lemma outside_hnth: "\<forall>x \<in> set xs. outside P x \<Longrightarrow> outside P (hnth xs i)"
  by (auto simp: hnth_def)

lemma h_getDotValue_out:
  "outside P obj \<Longrightarrow> preserves P (h_getDotValue obj parts) (outside P)"
proof (induction obj parts rule: h_getDotValue.induct)
  case (1 obj)
  then show ?case by (auto intro!: preserves_return)
next
  case (2 obj p)
  then show ?case by (auto intro!: preserves_return get_out)
next
  case (3 obj p q rest)
  show ?case
    using "3.prems"
    by (auto intro!: preserves_return bind_get bind_array "3.IH" preserves_bind[OF map_out]
        preserves_alloc outside_hnth split: option.splits)
qed


lemma modifier_without_field_out:
  "outside P obj \<Longrightarrow> preserves P (modifier_without_field n modifier obj) (\<lambda>u. True)"
proof (induction n arbitrary: obj)
  case 0
  then show ?case by (simp add: preserves_throw)
next
  case (Suc n)
  show ?case
    using Suc.prems
    by (auto intro!: bind_array preserves_forEach bind_get bind_alloc bind_set Suc.IH return_T
        split: option.splits)
qed

lemma R_length_T: "preserves P (R_length v) (\<lambda>n. True)"
  by (cases v) (auto simp: R_length_def intro!: return_T bind_T[OF get_T])

lemma filter_T:
  assumes "\<And>x. x \<in> set xs \<Longrightarrow> preserves P (f x) (\<lambda>b. True)"
  shows "preserves P (hfilter xs f) (\<lambda>ys. True)"
  using assms
proof (induction xs)
  case Nil
  then show ?case by (simp add: return_T)
next
  case (Cons x xs)
  have 1: "preserves P (f x) (\<lambda>b. True)" using Cons.prems by simp
  have 2: "preserves P (hfilter xs f) (\<lambda>ys. True)" using Cons by simp
  show ?case by (auto intro!: bind_T[OF 1] bind_T[OF 2] return_T)
qed

lemma modifierFunction_out:
  "(\<And>d u. outside P d \<Longrightarrow> outside P u \<Longrightarrow> preserves P (inner d u) (outside P)) \<Longrightarrow>
   outside P obj \<Longrightarrow> outside P v \<Longrightarrow>
     preserves P (modifierFunction inner rt modifier obj parts v query) (\<lambda>u. True)"
proof (induction inner rt modifier obj parts v query rule: modifierFunction.induct)
  case (1 inner rt modifier obj v query)
  show ?case
    unfolding modifierFunction.simps
    by (rule preserves_at_length) (rule modifier_without_field_out[OF "1.prems"(2)])
next
  case (2 inner rt modifier obj p v query)
  show ?case
    apply (subst modifierFunction.simps)
    apply (rule bind_array[OF "2.prems"(2)])
    apply (rule preserves_forEach)
    subgoal for xs el
      apply (cases "lastStepModifierFunctions rt modifier")
       apply (simp add: preserves_throw)
      apply (simp only: option.case)
      apply (rule lastStep_out, assumption)
       apply (use "2.prems"(2) in \<open>auto split: option.splits if_splits\<close>)[1]
      apply (rule "2.prems"(3))
      done
    done
next
  case (3 inner rt modifier obj p q rest v query)
  note inner = "3.prems"(1) and obj = "3.prems"(2) and v = "3.prems"(3)
  have candidates: "preserves P
      (hfilter [0..<len]
        (\<lambda>i. hbind (hget array (string_of_nat i)) (\<lambda>ai.
             hbind (halloc (CArr [ai])) (\<lambda>single.
             hbind (halloc (CObj [(path, single)])) (\<lambda>setter.
             hbind (halloc (CObj [(''$set'', setter)])) (\<lambda>update.
             hbind (inner obj update) (\<lambda>modified. match_cells rt modified query)))))))
      (\<lambda>ys. True)"
    if "outside P array" for array len path
    by (rule filter_T)
       (auto intro!: bind_get bind_alloc bind_out[OF inner] match_cells_T that obj)
  show ?case
    apply (subst modifierFunction.simps)
    apply (rule bind_array[OF obj])
    apply (rule preserves_forEach)
    subgoal for xs el
      apply (rule bind_get)
       apply (use obj in \<open>auto split: option.splits if_splits\<close>)[1]
      subgoal for cur
        apply (cases "cur = VUndefined \<and> modifier = ''$unset''")
         apply (simp add: return_T)
        apply (simp only: if_False)
        apply (rule bind_T[where m="if cur = VUndefined then _ else _"])
         apply (use obj in \<open>auto intro!: bind_alloc set_out return_T split: option.splits if_splits\<close>)[1]
        apply (cases "if htruthy query then index_of ''$'' (p # q # rest) else None")
         apply (simp only: option.case)
         apply (rule bind_get)
          apply (use obj in \<open>auto split: option.splits if_splits\<close>)[1]
         apply (rule "3.IH"(1); (assumption | (rule inner; assumption) | rule v | simp)?)
        subgoal for u dollarIndex
          apply (simp only: option.case)
          apply (cases "length (filter (\<lambda>x. x = ''$'') (p # q # rest)) \<noteq> 1")
           apply (simp add: preserves_throw)
          apply (cases "dollarIndex = 0")
           apply (simp add: preserves_throw)
          apply (simp only: if_False)
          apply (rule bind_out[OF h_getDotValue_out[OF obj]])
          apply (rule bind_T[OF R_length_T])
          apply (rule bind_T[OF candidates], assumption)
          subgoal for array len matchArrayIndexs
            apply (cases "matchArrayIndexs = []")
             apply (subst if_P, assumption)
             apply (rule bind_get)
              apply (use obj in \<open>auto split: option.splits if_splits\<close>)[1]
             apply (rule "3.IH"(2); (assumption | (rule inner; assumption) | rule v | simp)?)
            apply (subst if_not_P, assumption)
            apply (rule preserves_forEach)
            apply (rule bind_get)
             apply (use obj in \<open>auto split: option.splits if_splits\<close>)[1]
            apply (rule "3.IH"(3); (assumption | (rule inner; assumption) | rule v | simp)?)
            done
          done
        done
      done
    done
qed


lemma apply_modifiers_out:
  assumes "\<And>d u. outside P d \<Longrightarrow> outside P u \<Longrightarrow> preserves P (inner d u) (outside P)"
    and "outside P newDoc" "outside P updateQuery"
  shows "preserves P (apply_modifiers inner rt newDoc updateQuery modifiers query) (\<lambda>u. True)"
  unfolding apply_modifiers_def
  using assms(2,3)
  by (auto intro!: preserves_forEach preserves_throw bind_get bind_keys
      modifierFunction_out[OF assms(1)])

lemma validate_T: "preserves P (validate v) (\<lambda>u. True)"
  unfolding validate_def by (intro bind_reify lift_T)

lemma modify_with_out:
  assumes "\<And>d u. outside P d \<Longrightarrow> outside P u \<Longrightarrow> preserves P (inner d u) (outside P)"
    and "outside P obj" "outside P updateQuery"
  shows "preserves P (modify_with inner rt obj updateQuery query) (outside P)"
  unfolding modify_with_def
  using assms(2,3)
  by (auto intro!: bind_keys bind_get preserves_throw preserves_return
      bind_out[OF deepCopy_value_out] bind_set bind_T[OF apply_modifiers_out[OF assms(1)]]
      bind_T[OF validate_T])

lemma modify_without_query_out:
  "outside P obj \<Longrightarrow> outside P updateQuery \<Longrightarrow>
     preserves P (modify_without_query rt obj updateQuery) (outside P)"
  unfolding modify_without_query_def
  by (rule modify_with_out) (auto intro: preserves_throw)

subsection \<open>The copy of a document without tagged objects\<close>

fun untagged :: "nat \<Rightarrow> heap \<Rightarrow> hval \<Rightarrow> bool" where
  "untagged 0 h (VRef a) = True"
| "untagged (Suc n) h (VRef a) =
     (a < length h \<and>
      (case h ! a of
         CArr xs \<Rightarrow> list_all (untagged n h) xs
       | CObj kvs \<Rightarrow> hown kvs ''_bsontype'' \<noteq> VStr ''ObjectID'' \<and>
                     list_all (\<lambda>kv. untagged n h (snd kv)) kvs))"
| "untagged n h v = True"

definition newer :: "nat \<Rightarrow> hval \<Rightarrow> bool" where
  "newer k v = (case v of VRef a \<Rightarrow> k \<le> a | _ \<Rightarrow> True)"

definition grows :: "nat \<Rightarrow> heap \<Rightarrow> heap \<Rightarrow> bool" where
  "grows k h h' = (\<exists>cs. h' = h @ cs \<and> (\<forall>c \<in> set cs. \<forall>x \<in> cell_vals c. newer k x))"

lemma grows_refl: "grows k h h"
  by (simp add: grows_def)

lemma grows_trans: "grows k h h1 \<Longrightarrow> grows k h1 h2 \<Longrightarrow> grows k h h2"
  by (auto simp: grows_def)

lemma grows_length: "grows k h h' \<Longrightarrow> length h \<le> length h'"
  by (auto simp: grows_def)

lemma untagged_append: "untagged n h v \<Longrightarrow> untagged n (h @ cs) v"
proof (induction n arbitrary: v)
  case 0
  then show ?case by (cases v) auto
next
  case (Suc n)
  show ?case
  proof (cases v)
    case (VRef a)
    then show ?thesis using Suc
      by (auto simp: nth_append list_all_iff split: cell.splits)
  qed auto
qed

lemma untagged_grows: "grows k h h' \<Longrightarrow> untagged n h v \<Longrightarrow> untagged n h' v"
  by (auto simp: grows_def untagged_append)

lemma hmap_grows:
  assumes stable: "\<And>x h h'. grows k h h' \<Longrightarrow> Pre h x \<Longrightarrow> Pre h' x"
  shows "(\<forall>x \<in> set xs. \<forall>h r h'. k \<le> length h \<longrightarrow> Pre h x \<longrightarrow> f x h = (r, h') \<longrightarrow>
                 grows k h h' \<and> (\<forall>y. r = Inr y \<longrightarrow> Q y)) \<Longrightarrow>
         k \<le> length h \<Longrightarrow> \<forall>x \<in> set xs. Pre h x \<Longrightarrow> hmap xs f h = (r, h') \<Longrightarrow>
           grows k h h' \<and> (\<forall>ys. r = Inr ys \<longrightarrow> (\<forall>y \<in> set ys. Q y))"
proof (induction xs arbitrary: h r h')
  case Nil
  then show ?case by (auto simp: hreturn_def grows_refl)
next
  case (Cons x xs)
  note step = Cons.prems(1) and len = Cons.prems(2) and pre = Cons.prems(3) and run = Cons.prems(4)
  obtain r1 h1 where 1: "f x h = (r1, h1)" by (cases "f x h")
  have g1: "grows k h h1" "\<And>y. r1 = Inr y \<Longrightarrow> Q y"
    using step len pre 1 by auto
  show ?case
  proof (cases r1)
    case (Inl e)
    then show ?thesis using run 1 g1
      by (auto simp: hbind_def simp del: hbind_assoc)
  next
    case (Inr y)
    obtain r2 h2 where 2: "hmap xs f h1 = (r2, h2)" by (cases "hmap xs f h1")
    have "k \<le> length h1" using g1(1) len grows_length by fastforce
    moreover have "\<forall>x \<in> set xs. Pre h1 x" using pre stable[OF g1(1)] by auto
    moreover have "\<forall>x \<in> set xs. \<forall>h r h'. k \<le> length h \<longrightarrow> Pre h x \<longrightarrow> f x h = (r, h') \<longrightarrow>
                 grows k h h' \<and> (\<forall>y. r = Inr y \<longrightarrow> Q y)"
      using step by simp
    ultimately have g2: "grows k h1 h2" "\<And>ys. r2 = Inr ys \<Longrightarrow> (\<forall>y \<in> set ys. Q y)"
      using Cons.IH[of h1 r2 h2] 2 by auto
    show ?thesis
      using run 1 2 Inr g1 g2 grows_trans[OF g1(1) g2(1)]
      by (cases r2) (auto simp: hbind_def hreturn_def simp del: hbind_assoc)
  qed
qed

lemma deepCopy_grows:
  "k \<le> length h \<Longrightarrow> untagged n h v \<Longrightarrow> deepCopy n strictKeys v h = (r, h') \<Longrightarrow>
     grows k h h' \<and> (\<forall>x. r = Inr x \<longrightarrow> newer k x)"
proof (induction n arbitrary: v h r h')
  case 0
  then show ?case
    by (cases v) (auto simp: hreturn_def hthrow_def grows_refl newer_def)
next
  case (Suc n)
  show ?case
  proof (cases v)
    case (VRef a)
    then have a: "a < length h" using Suc.prems by simp
    show ?thesis
    proof (cases "h ! a")
      case (CArr xs)
      obtain r1 h1 where 1: "hmap xs (deepCopy n strictKeys) h = (r1, h1)"
        by (cases "hmap xs (deepCopy n strictKeys) h")
      have pre: "\<forall>x \<in> set xs. untagged n h x"
        using Suc.prems(2) VRef CArr by (simp add: list_all_iff)
      have "grows k h h1 \<and> (\<forall>ys. r1 = Inr ys \<longrightarrow> (\<forall>y \<in> set ys. newer k y))"
      proof (rule hmap_grows[where Pre="\<lambda>h x. untagged n h x"])
        show "\<And>x h h'. grows k h h' \<Longrightarrow> untagged n h x \<Longrightarrow> untagged n h' x"
          by (rule untagged_grows)
        show "\<forall>x \<in> set xs. \<forall>h r h'. k \<le> length h \<longrightarrow> untagged n h x \<longrightarrow>
                deepCopy n strictKeys x h = (r, h') \<longrightarrow>
                grows k h h' \<and> (\<forall>y. r = Inr y \<longrightarrow> newer k y)"
          by (intro ballI allI impI) (rule Suc.IH; assumption)
      qed (use Suc.prems(1) 1 pre in blast)+
      then have g: "grows k h h1" "\<And>ys. r1 = Inr ys \<Longrightarrow> (\<forall>y \<in> set ys. newer k y)"
        by blast+
      show ?thesis
      proof (cases r1)
        case (Inl e)
        then show ?thesis using Suc.prems(3) VRef CArr a 1 g
          by (auto simp: hbind_def hread_def simp del: hbind_assoc)
      next
        case (Inr ys)
        have "grows k h1 (h1 @ [CArr ys])" using g(2)[OF Inr] by (auto simp: grows_def)
        moreover have "k \<le> length h1" using g(1) Suc.prems(1) grows_length by fastforce
        ultimately show ?thesis using Suc.prems(3) VRef CArr a 1 g Inr
          by (auto simp: hbind_def hread_def halloc_def newer_def simp del: hbind_assoc
              intro: grows_trans)
      qed
    next
      case (CObj kvs)
      let ?kept = "filter (\<lambda>kv. \<not> strictKeys \<or>
                      (\<not> starts_with_dollar (fst kv) \<and> \<not> contains_dot (fst kv))) kvs"
      let ?f = "\<lambda>kv. hbind (deepCopy n strictKeys (snd kv)) (\<lambda>y. hreturn (fst kv, y))"
      have tag: "hown kvs ''_bsontype'' \<noteq> VStr ''ObjectID''"
        using Suc.prems(2) VRef CObj by simp
      obtain r1 h1 where 1: "hmap ?kept ?f h = (r1, h1)" by (cases "hmap ?kept ?f h")
      have pre: "\<forall>kv \<in> set ?kept. untagged n h (snd kv)"
        using Suc.prems(2) VRef CObj by (simp add: list_all_iff)
      have step: "grows k h0 h0' \<and> (\<forall>y. r0 = Inr y \<longrightarrow> newer k (snd y))"
        if "k \<le> length h0" "untagged n h0 (snd kv)" "?f kv h0 = (r0, h0')" for kv h0 r0 h0'
      proof -
        obtain r2 h2 where 2: "deepCopy n strictKeys (snd kv) h0 = (r2, h2)"
          by (cases "deepCopy n strictKeys (snd kv) h0")
        from Suc.IH[OF that(1,2) 2] that(3) 2 show ?thesis
          by (cases r2) (auto simp: hbind_def hreturn_def simp del: hbind_assoc)
      qed
      have "grows k h h1 \<and> (\<forall>ys. r1 = Inr ys \<longrightarrow> (\<forall>y \<in> set ys. newer k (snd y)))"
      proof (rule hmap_grows[where Pre="\<lambda>h kv. untagged n h (snd kv)"])
        show "\<And>x h h'. grows k h h' \<Longrightarrow> untagged n h (snd x) \<Longrightarrow> untagged n h' (snd x)"
          by (rule untagged_grows)
        show "\<forall>kv \<in> set ?kept. \<forall>h r h'. k \<le> length h \<longrightarrow> untagged n h (snd kv) \<longrightarrow>
                ?f kv h = (r, h') \<longrightarrow>
                grows k h h' \<and> (\<forall>y. r = Inr y \<longrightarrow> newer k (snd y))"
          by (intro ballI allI impI) (rule step; assumption)
      qed (use Suc.prems(1) 1 pre in blast)+
      then have g: "grows k h h1" "\<And>ys. r1 = Inr ys \<Longrightarrow> (\<forall>y \<in> set ys. newer k (snd y))"
        by blast+
      show ?thesis
      proof (cases r1)
        case (Inl e)
        then show ?thesis using Suc.prems(3) VRef CObj a 1 g tag
          by (auto simp: hbind_def hread_def simp del: hbind_assoc)
      next
        case (Inr ys)
        have "grows k h1 (h1 @ [CObj ys])" using g(2)[OF Inr] by (auto simp: grows_def)
        moreover have "k \<le> length h1" using g(1) Suc.prems(1) grows_length by fastforce
        ultimately show ?thesis using Suc.prems(3) VRef CObj a 1 g Inr tag
          by (auto simp: hbind_def hread_def halloc_def newer_def simp del: hbind_assoc
              intro: grows_trans)
      qed
    qed
  qed (use Suc.prems in \<open>auto simp: hreturn_def grows_refl newer_def\<close>)
qed

lemma grows_sealed:
  assumes "sealed P h" "grows (length h) h h'"
  shows "sealed P h' \<and> keeps P h h'"
proof -
  obtain cs where cs: "h' = h @ cs" "\<forall>c \<in> set cs. \<forall>x \<in> cell_vals c. newer (length h) x"
    using assms(2) by (auto simp: grows_def)
  have P: "\<And>a. a \<in> P \<Longrightarrow> a < length h" using assms(1) by (simp add: sealed_def)
  have out: "outside P x" if "newer (length h) x" for x
    using that P by (cases x) (fastforce simp: newer_def outside_def)+
  have "outside P v" if "a < length h'" "a \<notin> P" "v \<in> cell_vals (h' ! a)" for a v
  proof (cases "a < length h")
    case True
    then show ?thesis using that assms(1) cs(1) by (auto simp: sealed_def nth_append)
  next
    case False
    then have "h' ! a \<in> set cs" using that(1) cs(1) by (auto simp: nth_append)
    then show ?thesis using cs(2) that(3) out by blast
  qed
  moreover have "\<And>a. a \<in> P \<Longrightarrow> a < length h'" using P cs(1) by fastforce
  moreover have "keeps P h h'" using P cs(1) by (auto simp: keeps_def nth_append)
  ultimately show ?thesis by (auto simp: sealed_def)
qed


subsection \<open>The document under modify\<close>

definition frame_at :: "addr set \<Rightarrow> heap \<Rightarrow> 'a hm \<Rightarrow> bool" where
  "frame_at P h m = keeps P h (snd (m h))"

lemma frame_bind:
  assumes "keeps P h (snd (m h))"
    and "\<And>x. fst (m h) = Inr x \<Longrightarrow> frame_at P (snd (m h)) (f x)"
  shows "frame_at P h (hbind m f)"
proof (cases "m h")
  case (Pair r h1)
  then show ?thesis using assms
    by (cases r) (auto simp: frame_at_def hbind_def intro: keeps_trans simp del: hbind_assoc)
qed

lemma frame_pure_bind:
  "snd (m h) = h \<Longrightarrow> (\<And>x. frame_at P h (f x)) \<Longrightarrow> frame_at P h (hbind m f)"
  by (rule frame_bind) (simp_all add: keeps_refl)

lemma frame_throw: "frame_at P h (hthrow e)"
  by (simp add: frame_at_def keeps_refl)

lemma frame_pure: "(\<And>h. snd (m h) = h) \<Longrightarrow> frame_at P h m"
  by (simp add: frame_at_def keeps_refl)

lemma frame_preserves: "preserves P m R \<Longrightarrow> sealed P h \<Longrightarrow> frame_at P h m"
  by (cases "m h") (auto simp: frame_at_def dest: preservesD)

lemma frame_preserves_bind:
  assumes "preserves P m Q" "sealed P h"
    and "\<And>x h1. Q x \<Longrightarrow> sealed P h1 \<Longrightarrow> frame_at P h1 (f x)"
  shows "frame_at P h (hbind m f)"
proof (cases "m h")
  case (Pair r h1)
  from preservesD[OF assms(1,2) Pair] show ?thesis
    using Pair assms(3) by (intro frame_bind) auto
qed

lemma newer_outside: "sealed P h \<Longrightarrow> newer (length h) x \<Longrightarrow> outside P x"
  by (cases x) (fastforce simp: newer_def outside_def sealed_def)+

lemma frame_copy_bind:
  assumes "sealed P h" "untagged (length h) h doc"
    and "\<And>x h1. outside P x \<Longrightarrow> sealed P h1 \<Longrightarrow> frame_at P h1 (f x)"
  shows "frame_at P h (hbind (deepCopy_value doc) f)"
proof (cases "deepCopy_value doc h")
  case (Pair r h1)
  then have "deepCopy (length h) False doc h = (r, h1)" by (simp add: deepCopy_value_def)
  from deepCopy_grows[OF order_refl assms(2) this]
  have g: "grows (length h) h h1" "\<And>x. r = Inr x \<Longrightarrow> newer (length h) x" by auto
  from grows_sealed[OF assms(1) g(1)] have s: "sealed P h1" "keeps P h h1" by auto
  show ?thesis
    using Pair s g(2) assms(1,3) by (intro frame_bind) (auto intro: newer_outside)
qed

lemma set_keeps:
  assumes "outside P d" "sealed P h"
  shows "keeps P h (snd (hset d k v h))"
proof (cases d)
  case (VRef a)
  then have "\<And>b. b \<in> P \<Longrightarrow> a \<noteq> b" using assms(1) by (auto simp: outside_def)
  then show ?thesis using VRef
    by (auto simp: hset_def hbind_def hread_def hwrite_def hthrow_def hreturn_def keeps_def
        nth_list_update_neq split: cell.splits option.splits simp del: hbind_assoc)
qed (simp_all add: hset_def keeps_refl)

lemma frame_set_pure:
  "outside P d \<Longrightarrow> sealed P h \<Longrightarrow> (\<And>x h. snd (f x h) = h) \<Longrightarrow>
     frame_at P h (hbind (hset d k v) f)"
  by (rule frame_bind) (auto simp: set_keeps intro: frame_pure)

lemma snd_validate [simp]: "snd (validate v h) = h"
  by (simp add: validate_def snd_hbind)

lemma modify_with_frame:
  assumes inner: "\<And>d u. outside P d \<Longrightarrow> outside P u \<Longrightarrow> preserves P (inner d u) (outside P)"
    and h: "sealed P h" and u: "outside P u" and doc: "untagged (length h) h doc"
  shows "frame_at P h (modify_with inner rt doc u q)"
  unfolding modify_with_def
  apply (rule frame_pure_bind, simp)
  apply (rule frame_pure_bind, simp add: snd_hbind)
  apply (simp only: hbind_if hbind_assoc hbind_return split: if_split)
  apply (intro conjI impI frame_throw)
   apply (rule frame_preserves_bind[OF deepCopy_value_out[OF u] h])
   apply (rule frame_pure_bind, simp)
   apply (rule frame_set_pure, assumption, assumption)
   apply (simp add: snd_hbind)
  apply (rule frame_copy_bind[OF h doc])
  apply (rule frame_preserves)
   apply (rule bind_T)
    apply (rule apply_modifiers_out)
      apply (rule inner, assumption, assumption)
     apply assumption
    apply (rule u)
   apply (rule preserves_pure, simp add: snd_hbind)
  apply assumption
  done

lemma modify_frame:
  assumes "sealed P h" "outside P u" "untagged (length h) h doc"
  shows "keeps P h (snd (modify rt doc u q h))"
  using modify_with_frame[where inner="modify_without_query rt", OF modify_without_query_out assms]
  by (simp add: modify_def frame_at_def)


section \<open>The properties of modify\<close>

subsection \<open>The call without a query\<close>

text \<open>Without a query the positional operator is never reached, and the function that it
  would call plays no part.\<close>

lemma modifierFunction_without_query:
  "modifierFunction inner rt modifier obj parts v VUndefined =
   modifierFunction inner' rt modifier obj parts v VUndefined"
proof (induction parts arbitrary: obj)
  case Nil
  show ?case by (simp add: modifierFunction.simps)
next
  case (Cons p ps)
  show ?case
  proof (cases ps)
    case Nil
    then show ?thesis by (simp add: modifierFunction.simps)
  next
    case tail: (Cons q rest)
    have "\<And>next. modifierFunction inner rt modifier next (q # rest) v VUndefined =
                 modifierFunction inner' rt modifier next (q # rest) v VUndefined"
      using Cons.IH tail by simp
    then show ?thesis
      unfolding tail by (simp add: modifierFunction.simps(3) htruthy_def cong: if_cong)
  qed
qed

lemma apply_modifiers_without_query:
  "apply_modifiers inner rt newDoc updateQuery modifiers VUndefined =
   apply_modifiers inner' rt newDoc updateQuery modifiers VUndefined"
  unfolding apply_modifiers_def
  by (simp only: modifierFunction_without_query[of inner _ _ _ _ _ inner'] cong: if_cong)

lemma modify_with_without_query:
  "modify_with inner rt obj updateQuery VUndefined = modify_with inner' rt obj updateQuery VUndefined"
  unfolding modify_with_def
  by (simp only: apply_modifiers_without_query[of inner _ _ _ _ inner'] cong: if_cong)

lemma modify_without_query_eq:
  "modify rt obj updateQuery VUndefined = modify_without_query rt obj updateQuery"
  unfolding modify_def modify_without_query_def by (rule modify_with_without_query)

subsection \<open>The input document\<close>






subsection \<open>The identifier\<close>


lemma hbind_Inr:
  "hbind m f h = (Inr y, h') \<longleftrightarrow> (\<exists>x h1. m h = (Inr x, h1) \<and> f x h1 = (Inr y, h'))"
  by (cases "m h") (auto simp: hbind_def split: sum.splits simp del: hbind_assoc)

lemma hget_result: "hget v k h = (r, h') \<longleftrightarrow> fst (hget v k h) = r \<and> h' = h"
  using snd_hget[of v k h] by (cases "hget v k h") auto

lemma modify_with_returns:
  assumes "modify_with inner rt doc u q h = (Inr newDoc, h')"
  shows "\<exists>v. fst (hget newDoc ''_id'' h') = Inr v \<and> fst (hget doc ''_id'' h') = Inr v"
  using assms unfolding modify_with_def
  apply (simp only: hbind_Inr)
  apply (elim exE conjE)
  apply (simp split: if_splits add: hthrow_def hreturn_def hbind_Inr)
     apply (auto simp: hget_result)
  done




text \<open>When the update shares nothing with the document, the \<open>_id\<close> of the result is the one
  that the document had before the call.\<close>

lemma hget_cell: "a < length h \<Longrightarrow> a < length h' \<Longrightarrow> h' ! a = h ! a \<Longrightarrow>
    fst (hget (VRef a) k h') = fst (hget (VRef a) k h)"
  by (simp add: hget_def hbind_def hread_def hreturn_def del: hbind_assoc)

lemma modify_id_before:
  assumes "sealed P h" "outside P u" "untagged (length h) h (VRef d)" "d \<in> P"
    and "modify rt (VRef d) u q h = (Inr newDoc, h')"
  shows "fst (hget newDoc ''_id'' h') = fst (hget (VRef d) ''_id'' h)"
proof -
  have k: "keeps P h h'" using modify_frame[OF assms(1-3), of rt q] assms(5) by simp
  have "d < length h" using assms(1,4) by (simp add: sealed_def)
  then have "fst (hget (VRef d) ''_id'' h') = fst (hget (VRef d) ''_id'' h)"
    using k assms(4) by (intro hget_cell) (auto simp: keeps_def)
  moreover have "\<exists>v. fst (hget newDoc ''_id'' h') = Inr v \<and> fst (hget (VRef d) ''_id'' h') = Inr v"
    using modify_with_returns[where inner="modify_without_query rt" and rt=rt and doc="VRef d"
        and u=u and q=q and h=h and newDoc=newDoc and h'=h'] assms(5)
    by (simp add: modify_def)
  ultimately show ?thesis by auto
qed


section \<open>The properties of the array modifiers\<close>






lemma snd_compare_cells [simp]: "snd (compare_cells x y h) = h"
  by (simp add: compare_cells_def snd_hbind)

lemma snd_match_cells [simp]: "snd (match_cells rt x q h) = h"
  by (simp add: match_cells_def snd_hbind)











end
